theory Spec2Isabelle
  imports Main "HOL-Library.Word" "HOL-Library.Sublist"
begin

section \<open>Strings and faults\<close>

text \<open>
  A \<open>std::string\<close> is a \<open>string\<close> (a list of bytes). A \<open>const char*\<close> argument is
  the list of bytes in front of its terminating NUL: \<open>c_str\<close> gives that view of a
  \<open>std::string\<close>, and the functions that take a \<open>const char*\<close> (\<open>str_match\<close>,
  \<open>strtoll\<close>, \<open>levenshtein\<close>, \<open>tokenize\<close>) are defined on it, the end of the list
  standing for the terminator.
\<close>

definition c_str :: "string \<Rightarrow> string" where
  "c_str s = takeWhile (\<lambda>c. c \<noteq> CHR 0x00) s"

text \<open>
  What the source leaves undefined, or stops at, is a value of \<open>fault\<close>: the back of an
  empty vector, a read of memory that was never written, a failed \<open>assert\<close>.
\<close>

datatype fault = BackOfEmpty | UninitialisedRead | AssertFailed string

section \<open>cmd\_util\_t\<close>

subsection \<open>str\_match\<close>

definition INT_MAX :: int where
  "INT_MAX = 2147483647"

text \<open>
  The loop of \<open>str_match\<close>, at index \<open>i\<close>, with the bytes of \<open>str\<close> and \<open>sub\<close> from
  \<open>i\<close> on. The counter is an \<open>int32_t\<close> that counts the bytes compared so far; it is
  an \<open>int\<close> here (it never wraps: signed overflow is not defined in the source language).
\<close>

fun str_match_loop :: "int \<Rightarrow> string \<Rightarrow> string \<Rightarrow> int" where
  "str_match_loop i [] sub = (if sub = [] then INT_MAX else - 1)"
| "str_match_loop i (c # str) [] = i"
| "str_match_loop i (c # str) (d # sub) =
     (if c \<noteq> d then - 1 else str_match_loop (i + 1) str sub)"

definition str_match :: "string \<Rightarrow> string \<Rightarrow> int" where
  "str_match str sub = str_match_loop 0 str sub"

subsection \<open>strtoll\<close>

text \<open>
  The digit loop of \<open>strtoll\<close>. \<open>accum\<close> is a \<open>uint64_t\<close> and wraps. The result is
  the returned flag and, when the loop runs to the terminator, the value stored to
  \<open>out\<close>; the early \<open>return (*in == ' ')\<close> stores nothing.
\<close>

fun strtoll_loop :: "64 word \<Rightarrow> string \<Rightarrow> 64 word \<Rightarrow> bool \<times> 64 word option" where
  "strtoll_loop base [] accum = (True, Some accum)"
| "strtoll_loop base (ch # rest) accum =
     (let accum = accum * base; n = (of_char ch :: nat) in
      if 48 \<le> n \<and> n \<le> 57 then strtoll_loop base rest (accum + of_nat (n - 48))
      else if base = 16 then
        (if 97 \<le> n \<and> n \<le> 102 then strtoll_loop base rest (accum + of_nat ((n - 97) + 10))
         else if 65 \<le> n \<and> n \<le> 70 then strtoll_loop base rest (accum + of_nat ((n - 65) + 10))
         else strtoll_loop base rest accum)
      else (ch = CHR '' '', None))"

text \<open>
  \<open>strtoll in out\<close> is the returned flag, the final \<open>out\<close> (the argument \<open>out\<close> is what
  the caller's variable held before) and \<open>neg\<close>. \<open>memcmp(in, "0x", 2) == 0\<close> is the test
  that the bytes at \<open>in\<close> start with \<open>0x\<close>.
\<close>

definition strtoll :: "string \<Rightarrow> 64 word \<Rightarrow> bool \<times> 64 word \<times> bool" where
  "strtoll inp out =
     (let neg = (case inp of [] \<Rightarrow> False | c # _ \<Rightarrow> c = CHR ''-'');
          in1 = (if neg then tl inp else inp);
          hex = prefix ''0x'' in1;
          base = (if hex then 16 else 10);
          in2 = (if hex then drop 2 in1 else in1)
      in case strtoll_loop base in2 0 of
           (r, None) \<Rightarrow> (r, out, neg)
         | (r, Some accum) \<Rightarrow> (r, accum, neg))"

subsection \<open>levenshtein\<close>

definition MIN3 :: "nat \<Rightarrow> nat \<Rightarrow> nat \<Rightarrow> nat" where
  "MIN3 a b c = (if a < b then (if a < c then a else c) else (if b < c then b else c))"

text \<open>
  \<open>column\<close> is the array that \<open>alloca\<close> returns: \<open>s1len + 1\<close> cells, none of them written
  yet (\<open>None\<close>). Reading a cell that was never written is a fault. The counters and the
  cells are \<open>uint32_t\<close> in the source; they are bounded by the two lengths and are \<open>nat\<close>
  here.
\<close>

type_synonym column = "nat option list"

definition column_read :: "column \<Rightarrow> nat \<Rightarrow> fault + nat" where
  "column_read column y =
     (case column ! y of None \<Rightarrow> Inl UninitialisedRead | Some v \<Rightarrow> Inr v)"

fun levenshtein_init :: "nat list \<Rightarrow> column \<Rightarrow> column" where
  "levenshtein_init [] column = column"
| "levenshtein_init (y # ys) column = levenshtein_init ys (column[y := Some y])"

text \<open>The inner loop over \<open>y\<close>, for the byte \<open>s2[x - 1]\<close>; the state is \<open>column\<close> and \<open>lastdiag\<close>.\<close>

fun levenshtein_inner :: "string \<Rightarrow> char \<Rightarrow> nat list \<Rightarrow> column \<Rightarrow> nat \<Rightarrow> fault + column" where
  "levenshtein_inner s1 c2 [] column lastdiag = Inr column"
| "levenshtein_inner s1 c2 (y # ys) column lastdiag =
     (case column_read column y of
        Inl e \<Rightarrow> Inl e
      | Inr olddiag \<Rightarrow>
          (case column_read column (y - 1) of
             Inl e \<Rightarrow> Inl e
           | Inr left \<Rightarrow>
               levenshtein_inner s1 c2 ys
                 (column[y := Some (MIN3 (olddiag + 1) (left + 1)
                                      (lastdiag + (if s1 ! (y - 1) = c2 then 0 else 1)))])
                 olddiag))"

text \<open>The outer loop over \<open>x\<close>.\<close>

fun levenshtein_outer :: "string \<Rightarrow> string \<Rightarrow> nat list \<Rightarrow> column \<Rightarrow> fault + column" where
  "levenshtein_outer s1 s2 [] column = Inr column"
| "levenshtein_outer s1 s2 (x # xs) column =
     (case levenshtein_inner s1 (s2 ! (x - 1)) [1 ..< Suc (length s1)]
             (column[0 := Some x]) (x - 1) of
        Inl e \<Rightarrow> Inl e
      | Inr column' \<Rightarrow> levenshtein_outer s1 s2 xs column')"

definition levenshtein :: "string \<Rightarrow> string \<Rightarrow> fault + nat" where
  "levenshtein s1 s2 =
     (let s1len = length s1; s2len = length s2;
          column = levenshtein_init [1 ..< Suc s1len] (replicate (s1len + 1) None)
      in case levenshtein_outer s1 s2 [1 ..< Suc s2len] column of
           Inl e \<Rightarrow> Inl e
         | Inr column' \<Rightarrow> column_read column' s1len)"

section \<open>cmd\_token\_t\<close>

text \<open>
  A \<open>cmd_token_t\<close> wraps a \<open>std::string\<close>; it is a \<open>string\<close>. \<open>get<type_t>\<close> parses it
  with \<open>strtoll\<close>, \<open>value\<close> starting at \<open>0\<close>, and returns \<open>false\<close> (\<open>None\<close>) or stores
  \<open>neg ? 0 - value : value\<close>, cast to \<open>type_t\<close>.
\<close>

definition cmd_token_get :: "string \<Rightarrow> 64 word option" where
  "cmd_token_get token =
     (case strtoll (c_str token) 0 of
        (ok, val, neg) \<Rightarrow>
          if ok then Some (if neg then 0 - val else val) else None)"

definition cmd_token_get_uint64 :: "string \<Rightarrow> nat option" where
  "cmd_token_get_uint64 token = map_option unat (cmd_token_get token)"

definition cmd_token_get_int64 :: "string \<Rightarrow> int option" where
  "cmd_token_get_int64 token = map_option sint (cmd_token_get token)"

section \<open>cmd\_tokens\_t\<close>

type_synonym cmd_idents = "string \<rightharpoonup> 64 word"

record cmd_tokens =
  idents :: "cmd_idents option"
  raw :: "string list"
  stage_pair :: "string \<times> string"
  tokens :: "string list"
  pairs :: "string \<rightharpoonup> string"
  flags :: "string set"

definition cmd_tokens_t :: "cmd_idents option \<Rightarrow> cmd_tokens" where
  "cmd_tokens_t ids =
     \<lparr>idents = ids, raw = [], stage_pair = ([], []), tokens = [],
      pairs = Map.empty, flags = {}\<rparr>"

text \<open>\<open>std::to_string\<close> of a \<open>uint64_t\<close>: its decimal digits.\<close>

fun to_string_nat :: "nat \<Rightarrow> string" where
  "to_string_nat n =
     (if n < 10 then [char_of (48 + n)]
      else to_string_nat (n div 10) @ [char_of (48 + n mod 10)])"

definition to_string :: "64 word \<Rightarrow> string" where
  "to_string val = to_string_nat (unat val)"

definition substitute :: "cmd_idents option \<Rightarrow> string \<Rightarrow> string" where
  "substitute ids input =
     (case ids of
        None \<Rightarrow> input
      | Some m \<Rightarrow>
          if hd input = CHR ''$'' then
            (case m (c_str (tl input)) of None \<Rightarrow> input | Some val \<Rightarrow> to_string val)
          else input)"

definition push :: "string \<Rightarrow> cmd_tokens \<Rightarrow> cmd_tokens" where
  "push input0 t =
     (if input0 = [] then
        (if fst (stage_pair t) \<noteq> [] then
           t\<lparr>flags := insert (fst (stage_pair t)) (flags t),
             stage_pair := ([], snd (stage_pair t))\<rparr>
         else t)
      else
        (let input = substitute (idents t) input0;
             t = t\<lparr>raw := raw t @ [input]\<rparr>
         in if prefix ''-'' input then
              (let t = (if fst (stage_pair t) \<noteq> [] then
                          t\<lparr>flags := insert (fst (stage_pair t)) (flags t)\<rparr>
                        else t)
               in t\<lparr>stage_pair := (input, snd (stage_pair t))\<rparr>)
            else if fst (stage_pair t) \<noteq> [] then
              t\<lparr>pairs := (pairs t)(fst (stage_pair t) \<mapsto> input),
                stage_pair := ([], snd (stage_pair t))\<rparr>
            else t\<lparr>tokens := tokens t @ [input]\<rparr>))"

text \<open>
  The fields keep the source's names without the trailing underscore.
  \<open>token_pop\<close>, with its assertions checked: it returns \<open>true\<close> with the front of
  \<open>raw\<close> and of \<open>tokens\<close> popped, or stops at an assertion.
\<close>

definition token_pop :: "cmd_tokens \<Rightarrow> fault + cmd_tokens" where
  "token_pop t =
     (if tokens t \<noteq> [] then
        (if raw t = [] then Inl (AssertFailed ''!raw_.empty()'')
         else if hd (raw t) = hd (tokens t) then
           Inr (t\<lparr>raw := tl (raw t), tokens := tl (tokens t)\<rparr>)
         else Inl (AssertFailed ''FIXME: failed to pop''))
      else Inl (AssertFailed ''FIXME: failed to pop''))"

section \<open>tokenize\<close>

text \<open>
  The scanning loop of \<open>tokenize\<close>. \<open>src\<close> is the input from the pointer \<open>src\<close> on and
  \<open>cur\<close> the bytes between \<open>start\<close> and \<open>src\<close>. At a space or a tab the word \<open>cur\<close> is
  pushed and the inner loop steps over spaces (\<open>*src == ' '\<close> only). The loop need not
  end, so its result is an option: \<open>None\<close> is a run that never returns.
\<close>

partial_function (option) tokenize_loop ::
  "string \<Rightarrow> string \<Rightarrow> cmd_tokens \<Rightarrow> (string \<times> cmd_tokens) option" where
  "tokenize_loop src cur out =
     (case src of
        [] \<Rightarrow> Some (cur, out)
      | c # cs \<Rightarrow>
          if c = CHR '' '' \<or> c = CHR 0x09 then
            tokenize_loop (dropWhile (\<lambda>c. c = CHR '' '') src) [] (push cur out)
          else tokenize_loop cs (cur @ [c]) out)"

definition tokenize :: "string \<Rightarrow> cmd_tokens \<Rightarrow> (nat \<times> cmd_tokens) option" where
  "tokenize inp out =
     (case tokenize_loop inp [] out of
        None \<Rightarrow> None
      | Some (cur, out1) \<Rightarrow>
          (let out2 = (if cur \<noteq> [] then push cur out1 else out1);
               out3 = push [] out2
           in Some (length (tokens out3), out3)))"

section \<open>cmd\_output\_t and cmd\_locale\_t\<close>

text \<open>
  The output sink is an interface (\<open>println\<close> is pure virtual). It is modelled by the
  calls made to it: each \<open>println\<close> is recorded with the value of \<open>indent_\<close> at the
  call and the arguments as the declaration \<open>println(bool indent, const char* fmt, ...)\<close>
  receives them. \<open>cmd.cpp\<close> has calls with a string literal in the first place, such as
  \<open>out.println("> %s", prev_cmd.c_str())\<close>: there the literal converts to
  \<open>indent = true\<close> and the second argument is the format, with no further argument. What
  the sink makes of a format (a \<open>%\<close> in it) is the sink's business.
\<close>

datatype arg = B bool | S string

datatype out_call = Println "32 word" "arg list"

record cmd_output =
  indent :: "32 word"
  written :: "out_call list"

definition cmd_output_t :: cmd_output where
  "cmd_output_t = \<lparr>indent = 2, written = []\<rparr>"

definition println :: "arg list \<Rightarrow> cmd_output \<Rightarrow> cmd_output" where
  "println args out = out\<lparr>written := written out @ [Println (indent out) args]\<rparr>"

definition possible_completions :: "cmd_output \<Rightarrow> cmd_output" where
  "possible_completions out = println [B True, S ''possible completions:''] out"

definition invalid_command :: "cmd_output \<Rightarrow> cmd_output" where
  "invalid_command out = println [B True, S ''invalid command''] out"

definition no_subcommand :: "cmd_output \<Rightarrow> string \<Rightarrow> cmd_output" where
  "no_subcommand out cmd =
     println [B True, S (''no subcommand '' @ [CHR 0x27] @ ''%s'' @ [CHR 0x27]), S cmd] out"

definition did_you_meen :: "cmd_output \<Rightarrow> cmd_output" where
  "did_you_meen out = println [B True, S ''did you meen:''] out"

definition usage :: "cmd_output \<Rightarrow> string \<Rightarrow> string option \<Rightarrow> string option \<Rightarrow> cmd_output" where
  "usage out path args desc =
     (let out = println [B True, S ''usage: %s %s'', S path,
                         S (case args of None \<Rightarrow> [] | Some a \<Rightarrow> a)] out
      in case desc of
           None \<Rightarrow> out
         | Some d \<Rightarrow> println [B True, S ''desc:  %s'', S d] out)"

definition subcommands :: "cmd_output \<Rightarrow> cmd_output" where
  "subcommands out = println [B True, S ''subcomands:''] out"

text \<open>
  Modelled from the spec: \<open>cmd_locale_t::command_failed\<close>, which \<open>execute\<close> calls and
  \<open>cmd.h\<close> does not declare. The spec says that it reports "command failed" for the
  statement; the format text is not given and no property below depends on it.
\<close>

definition command_failed :: "cmd_output \<Rightarrow> string \<Rightarrow> cmd_output" where
  "command_failed out cmd = println [B True, S ''command failed'', S cmd] out"

section \<open>cmd\_t\<close>

text \<open>
  A command node: its name, its parent (the node behind the \<open>parent_\<close> pointer, of
  which only the name and the parent are read), its children, usage and description
  (\<open>None\<close> for a null pointer), and its two virtual methods. \<open>None\<close> for a method is
  the implementation of the base class \<open>cmd_t\<close>; \<open>Some h\<close> is an override \<open>h\<close> of a
  derived class, which is outside the library: it gets the tokens and the output and
  gives its result and the output. An override does not change the parser.
\<close>

datatype cmd = Cmd
  (cmd_name: string)
  (cmd_parent: "cmd option")
  (cmd_sub: "cmd list")
  (cmd_usage: "string option")
  (cmd_desc: "string option")
  (cmd_on_execute: "(cmd_tokens \<Rightarrow> cmd_output \<Rightarrow> bool \<times> cmd_output) option")
  (cmd_on_usage: "(cmd_output \<Rightarrow> bool \<times> cmd_output) option")

fun get_command_path :: "cmd \<Rightarrow> string \<Rightarrow> string" where
  "get_command_path (Cmd n par sb u d ex us) out =
     (case par of
        None \<Rightarrow> out @ n
      | Some q \<Rightarrow> (get_command_path q out @ '' '') @ n)"

definition print_cmd_list :: "cmd list \<Rightarrow> cmd_output \<Rightarrow> cmd_output" where
  "print_cmd_list list out =
     (let restore = indent out;
          out = out\<lparr>indent := indent out + 2\<rparr>;
          out = foldl (\<lambda>out c. println [B True, S ''%s'', S (cmd_name c)] out) out list
      in out\<lparr>indent := restore\<rparr>)"

definition print_sub_commands :: "cmd \<Rightarrow> cmd_output \<Rightarrow> cmd_output" where
  "print_sub_commands c out = print_cmd_list (cmd_sub c) out"

definition cmd_t_on_usage :: "cmd \<Rightarrow> cmd_output \<Rightarrow> bool \<times> cmd_output" where
  "cmd_t_on_usage c out =
     (let restore = indent out;
          out = out\<lparr>indent := indent out + 2\<rparr>;
          path = get_command_path c [];
          out = usage out path (cmd_usage c) (cmd_desc c);
          out = (if cmd_sub c \<noteq> [] then print_sub_commands c (subcommands out) else out)
      in (True, out\<lparr>indent := restore\<rparr>))"

definition FUZZYNESS :: nat where
  "FUZZYNESS = 3"

fun fuzzy_list :: "cmd list \<Rightarrow> string \<Rightarrow> cmd list \<Rightarrow> fault + cmd list" where
  "fuzzy_list [] tok_front list = Inr list"
| "fuzzy_list (i # rest) tok_front list =
     (case levenshtein (cmd_name i) tok_front of
        Inl e \<Rightarrow> Inl e
      | Inr d \<Rightarrow> fuzzy_list rest tok_front (if d < FUZZYNESS then list @ [i] else list))"

definition cmd_t_on_execute ::
  "cmd \<Rightarrow> cmd_tokens \<Rightarrow> cmd_output \<Rightarrow> fault + (bool \<times> cmd_output)" where
  "cmd_t_on_execute c tok out =
     (if cmd_sub c = [] then Inr (False, out)
      else if tokens tok \<noteq> [] then
        (let tok_front = c_str (hd (tokens tok)) in
         case fuzzy_list (cmd_sub c) tok_front [] of
           Inl e \<Rightarrow> Inl e
         | Inr list \<Rightarrow>
             (let out = no_subcommand out tok_front;
                  out = (if list \<noteq> [] then
                           foldl (\<lambda>out c. println [B True, S (cmd_name c)] out)
                             (did_you_meen out) list
                         else out)
              in Inr (True, out)))
      else Inr (True, print_sub_commands c out))"

text \<open>Virtual dispatch.\<close>

definition on_execute ::
  "cmd \<Rightarrow> cmd_tokens \<Rightarrow> cmd_output \<Rightarrow> fault + (bool \<times> cmd_output)" where
  "on_execute c tok out =
     (case cmd_on_execute c of
        None \<Rightarrow> cmd_t_on_execute c tok out
      | Some h \<Rightarrow> Inr (h tok out))"

definition on_usage :: "cmd \<Rightarrow> cmd_output \<Rightarrow> fault + (bool \<times> cmd_output)" where
  "on_usage c out =
     (case cmd_on_usage c of
        None \<Rightarrow> Inr (cmd_t_on_usage c out)
      | Some h \<Rightarrow> Inr (h out))"

section \<open>cmd\_parser\_t\<close>

text \<open>
  The parser: the root commands \<open>sub_\<close>, \<open>history_\<close>, the alias map \<open>alias_\<close> (a
  pointer to a node is the node) and \<open>idents_\<close>.
\<close>

record cmd_parser =
  parser_sub :: "cmd list"
  history :: "string list"
  aliases :: "string \<rightharpoonup> cmd"
  parser_idents :: cmd_idents

definition last_cmd :: "cmd_parser \<Rightarrow> fault + string" where
  "last_cmd p = (if history p = [] then Inl BackOfEmpty else Inr (last (history p)))"

definition alias_find :: "cmd_parser \<Rightarrow> string \<Rightarrow> cmd option" where
  "alias_find p a = aliases p a"

fun find_matches_loop :: "cmd list \<Rightarrow> string \<Rightarrow> int \<Rightarrow> cmd list \<Rightarrow> cmd list" where
  "find_matches_loop [] sub score vec = vec"
| "find_matches_loop (item # list) sub score vec =
     (let val = str_match (cmd_name item) sub in
      if val > score then find_matches_loop list sub val [item]
      else if val = score then find_matches_loop list sub score (vec @ [item])
      else find_matches_loop list sub score vec)"

definition find_matches :: "cmd list \<Rightarrow> string \<Rightarrow> cmd list \<Rightarrow> cmd list" where
  "find_matches list sub vec = find_matches_loop list sub 0 vec"

text \<open>
  The tree walk of \<open>execute_imp\<close>: the \<open>while (!tokens.token_empty())\<close> loop, with the
  state \<open>list\<close>, \<open>cmd\<close>, the tokens and the output.
\<close>

function walk ::
  "cmd list \<Rightarrow> cmd option \<Rightarrow> cmd_tokens \<Rightarrow> cmd_output \<Rightarrow>
   fault + (cmd option \<times> cmd_tokens \<times> cmd_output)" where
  "walk list cmd toks out =
     (if tokens toks = [] then Inr (cmd, toks, out)
      else
        (let cmd_vec = find_matches list (c_str (hd (tokens toks))) [] in
         if length cmd_vec = 0 then Inr (cmd, toks, out)
         else if length cmd_vec = 1 then
           (case token_pop toks of
              Inl e \<Rightarrow> Inl e
            | Inr toks' \<Rightarrow> walk (cmd_sub (hd cmd_vec)) (Some (hd cmd_vec)) toks' out)
         else
           Inr (None, toks,
                foldl (\<lambda>out c. println [B True, S (cmd_name c)] out)
                  (possible_completions out) cmd_vec)))"
  by pat_completeness auto
termination
  by (relation "measure (\<lambda>(list, cmd, toks, out). length (tokens toks))")
     (auto simp: token_pop_def split: if_splits)

text \<open>The alias check followed by the tree walk: the node that \<open>execute_imp\<close> resolves.\<close>

definition resolve ::
  "cmd_parser \<Rightarrow> cmd_tokens \<Rightarrow> cmd_output \<Rightarrow>
   fault + (cmd option \<times> cmd_tokens \<times> cmd_output)" where
  "resolve p toks out =
     (case alias_find p (hd (tokens toks)) of
        Some c \<Rightarrow>
          (case token_pop toks of
             Inl e \<Rightarrow> Inl e
           | Inr toks' \<Rightarrow> Inr (Some c, toks', out))
      | None \<Rightarrow> walk (parser_sub p) None toks out)"

text \<open>The end of \<open>execute_imp\<close>: \<open>if (cmd) { ... } else { ... } return false\<close>.\<close>

definition invoke ::
  "cmd option \<Rightarrow> cmd_tokens \<Rightarrow> cmd_output \<Rightarrow> fault + (bool \<times> cmd_output)" where
  "invoke cmd toks out =
     (case cmd of
        Some c \<Rightarrow>
          if tokens toks \<noteq> [] \<and> last (tokens toks) = ''?'' then on_usage c out
          else on_execute c toks out
      | None \<Rightarrow> Inr (False, invalid_command out))"

text \<open>
  The part of \<open>execute_imp\<close> after the test for a blank statement: resolve the node,
  then call it. The parser is returned as it is.
\<close>

definition dispatch ::
  "cmd_parser \<Rightarrow> cmd_tokens \<Rightarrow> cmd_output \<Rightarrow>
   fault + (bool \<times> cmd_parser \<times> cmd_output)" where
  "dispatch p toks out =
     (case resolve p toks out of
        Inl e \<Rightarrow> Inl e
      | Inr (cmd, toks', out') \<Rightarrow>
          (case invoke cmd toks' out' of
             Inl e \<Rightarrow> Inl e
           | Inr (r, out'') \<Rightarrow> Inr (r, p, out'')))"

text \<open>
  \<open>execute_imp\<close>. The result is \<open>None\<close> when the call never returns, a fault, or the
  returned flag with the parser and the output as the call leaves them.
\<close>

partial_function (option) execute_imp ::
  "cmd_parser \<Rightarrow> string \<Rightarrow> cmd_output \<Rightarrow>
   (fault + (bool \<times> cmd_parser \<times> cmd_output)) option" where
  "execute_imp p expr out =
     (case last_cmd p of
        Inl e \<Rightarrow> Some (Inl e)
      | Inr prev_cmd \<Rightarrow>
          (let p1 = p\<lparr>history := history p @ [expr]\<rparr> in
           case tokenize (c_str expr) (cmd_tokens_t (Some (parser_idents p1))) of
             None \<Rightarrow> None
           | Some (n, toks) \<Rightarrow>
               if n = 0 then
                 (case last_cmd p1 of
                    Inl e \<Rightarrow> Some (Inl e)
                  | Inr l \<Rightarrow>
                      if l \<noteq> [] then
                        execute_imp p1 prev_cmd
                          (println [B True, S (c_str prev_cmd)] out)
                      else Some (Inr (False, p1, out)))
               else Some (dispatch p1 toks out)))"

text \<open>The block "execute single command" of the loop of \<open>execute\<close>.\<close>

definition execute_single ::
  "cmd_parser \<Rightarrow> string \<Rightarrow> cmd_output \<Rightarrow>
   (fault + (bool \<times> cmd_parser \<times> cmd_output)) option" where
  "execute_single p cmd out =
     (if cmd \<noteq> [] then
        (case execute_imp p cmd out of
           None \<Rightarrow> None
         | Some (Inl e) \<Rightarrow> Some (Inl e)
         | Some (Inr (ok, p', out')) \<Rightarrow>
             if ok then Some (Inr (True, p', out'))
             else Some (Inr (False, p', command_failed out' (c_str cmd))))
      else Some (Inr (True, p, out)))"

text \<open>
  The loop of \<open>execute\<close>; \<open>rest\<close> is \<open>expr\<close> from the index \<open>ix\<close> on. The first branch
  is \<open>next != npos\<close>, the second \<open>next == npos\<close>, where the loop ends.
\<close>

function execute_loop ::
  "cmd_parser \<Rightarrow> string \<Rightarrow> cmd_output \<Rightarrow>
   (fault + (bool \<times> cmd_parser \<times> cmd_output)) option" where
  "execute_loop p rest out =
     (if CHR '';'' \<in> set rest then
        (case execute_single p (takeWhile (\<lambda>c. c \<noteq> CHR '';'') rest) out of
           None \<Rightarrow> None
         | Some (Inl e) \<Rightarrow> Some (Inl e)
         | Some (Inr (ok, p', out')) \<Rightarrow>
             if ok then execute_loop p' (tl (dropWhile (\<lambda>c. c \<noteq> CHR '';'') rest)) out'
             else Some (Inr (False, p', out')))
      else execute_single p rest out)"
  by pat_completeness auto
termination
proof (relation "measure (\<lambda>(p, rest, out). length rest)")
  show "wf (measure (\<lambda>(p, rest, out). length rest))"
    by simp
next
  fix rest :: string and p p' :: cmd_parser and out' :: cmd_output
  assume "CHR '';'' \<in> set rest"
  then have "dropWhile (\<lambda>c. c \<noteq> CHR '';'') rest \<noteq> []"
    by simp
  then have "length (tl (dropWhile (\<lambda>c. c \<noteq> CHR '';'') rest))
               < length (dropWhile (\<lambda>c. c \<noteq> CHR '';'') rest)"
    by (cases "dropWhile (\<lambda>c. c \<noteq> CHR '';'') rest") simp_all
  also have "\<dots> \<le> length rest"
    by (rule length_dropWhile_le)
  finally show "((p', tl (dropWhile (\<lambda>c. c \<noteq> CHR '';'') rest), out'), (p, rest, out))
                  \<in> measure (\<lambda>(p, rest, out). length rest)" for out
    by simp
qed

definition execute ::
  "cmd_parser \<Rightarrow> string \<Rightarrow> cmd_output \<Rightarrow>
   (fault + (bool \<times> cmd_parser \<times> cmd_output)) option" where
  "execute p expr out = execute_loop p expr out"

declare walk.simps [simp del] execute_loop.simps [simp del]

section \<open>Sequences of operations on a token stream\<close>



text \<open>The segments of a string between the occurrences of a delimiter.\<close>

fun split_on :: "char \<Rightarrow> string \<Rightarrow> string list" where
  "split_on d [] = [[]]"
| "split_on d (c # cs) =
     (if c = d then [] # split_on d cs
      else (c # hd (split_on d cs)) # tl (split_on d cs))"

text \<open>
  The words of an input line: the non-empty segments between its spaces; and the calls of
  \<open>push\<close> on a list of words, in order.
\<close>

definition words :: "string \<Rightarrow> string list" where
  "words inp = filter (\<lambda>w. w \<noteq> []) (split_on (CHR '' '') inp)"

fun push_all :: "string list \<Rightarrow> cmd_tokens \<Rightarrow> cmd_tokens" where
  "push_all [] t = t"
| "push_all (w # ws) t = push_all ws (push w t)"

text \<open>
  What the scanning loop returns on an input without a tab: the last word, not yet
  pushed, and the stream with the words before it pushed.
\<close>

definition scan_result :: "string \<Rightarrow> string \<Rightarrow> cmd_tokens \<Rightarrow> string \<times> cmd_tokens" where
  "scan_result src cur out =
     (let ws = split_on (CHR '' '') src in
      if tl ws = [] then (cur @ hd ws, out)
      else (last ws,
            push_all (filter (\<lambda>w. w \<noteq> []) (butlast (tl ws))) (push (cur @ hd ws) out)))"




text \<open>
  The state of the history in which a blank statement can be answered: it is not empty,
  and its last statement is the empty string or has a positional token.
\<close>

definition history_ok :: "cmd_parser \<Rightarrow> bool" where
  "history_ok p =
     (history p \<noteq> [] \<and>
      (last (history p) = [] \<or>
       (case tokenize (c_str (last (history p))) (cmd_tokens_t (Some (parser_idents p))) of
          None \<Rightarrow> False
        | Some (n, toks) \<Rightarrow> 0 < n)))"

section \<open>The statement sequence, in the words of the specification\<close>

text \<open>
  The rule the specification gives for \<open>execute\<close>, on the segments of the expression
  between the delimiters: each non-empty segment is executed in turn; the first one that
  fails is reported and ends the run with failure; otherwise the run succeeds.
\<close>

fun execute_segments ::
  "cmd_parser \<Rightarrow> string list \<Rightarrow> cmd_output \<Rightarrow>
   (fault + (bool \<times> cmd_parser \<times> cmd_output)) option" where
  "execute_segments p [] out = Some (Inr (True, p, out))"
| "execute_segments p (seg # segs) out =
     (if seg = [] then execute_segments p segs out
      else
        (case execute_imp p seg out of
           None \<Rightarrow> None
         | Some (Inl e) \<Rightarrow> Some (Inl e)
         | Some (Inr (ok, p', out')) \<Rightarrow>
             if ok then execute_segments p' segs out'
             else Some (Inr (False, p', command_failed out' (c_str seg)))))"

section \<open>The edit distance, in the words of the specification\<close>

text \<open>
  The Levenshtein distance of two lists: the least number of deletions, insertions and
  substitutions of one element that turn the first into the second.
\<close>

fun lev :: "'a list \<Rightarrow> 'a list \<Rightarrow> nat" where
  "lev [] ys = length ys"
| "lev (x # xs) [] = Suc (length xs)"
| "lev (x # xs) (y # ys) =
     min (min (lev xs (y # ys) + 1) (lev (x # xs) ys + 1))
         (lev xs ys + (if x = y then 0 else 1))"

text \<open>
  The distance of the first \<open>y\<close> bytes of \<open>s1\<close> to the first \<open>x\<close> bytes of \<open>s2\<close>, read from
  the last byte backwards as the loops of \<open>levenshtein\<close> do, and the column of these
  distances for one \<open>x\<close>.
\<close>

definition lev_prefix :: "string \<Rightarrow> string \<Rightarrow> nat \<Rightarrow> nat \<Rightarrow> nat" where
  "lev_prefix s1 s2 y x = lev (rev (take y s1)) (rev (take x s2))"

definition lev_row :: "string \<Rightarrow> string \<Rightarrow> nat \<Rightarrow> column" where
  "lev_row s1 s2 x = map (\<lambda>j. Some (lev_prefix s1 s2 j x)) [0 ..< Suc (length s1)]"

section \<open>An example parser\<close>

text \<open>
  A parser with one root command \<open>start\<close>, whose \<open>on_execute\<close> is overridden and prints
  a line, and with \<open>start\<close> as the statement executed last.
\<close>

definition ex_start :: cmd where
  "ex_start =
     Cmd ''start'' None [] None None
       (Some (\<lambda>tok out. (True, println [B True, S ''started''] out))) None"

definition ex_parser :: cmd_parser where
  "ex_parser =
     \<lparr>parser_sub = [ex_start], history = [''start''], aliases = Map.empty,
      parser_idents = Map.empty\<rparr>"

section \<open>Properties of str\_match\<close>

lemma str_match_loop_eq:
  "str_match_loop i str sub =
     (if sub = str then INT_MAX
      else if prefix sub str then i + int (length sub)
      else - 1)"
proof (induction i str sub rule: str_match_loop.induct)
  case (1 i sub)
  then show ?case by auto
next
  case (2 i c str)
  then show ?case by simp
next
  case (3 i c str d sub)
  then show ?case by auto
qed

text \<open>
  C1, as the code has it: \<open>str_match name sub\<close> is \<open>INT_MAX\<close> when \<open>sub\<close> equals
  \<open>name\<close>, the length of \<open>sub\<close> when \<open>sub\<close> is a proper prefix of \<open>name\<close> (so \<open>0\<close>,
  not a negative value, when \<open>sub\<close> is empty and \<open>name\<close> is not), and \<open>-1\<close> in every
  other case: a byte differs before either string ends, or \<open>name\<close> ends first.
\<close>

theorem str_match_spec:
  "str_match name sub =
     (if sub = name then INT_MAX
      else if prefix sub name then int (length sub)
      else - 1)"
  by (simp add: str_match_def str_match_loop_eq)

text \<open>
  C1 as stated fails: with \<open>sub\<close> empty and \<open>name\<close> not, the result is the match length
  \<open>0\<close>, which is not negative.
\<close>

theorem str_match_empty_sub_counterexample:
  "str_match ''status'' [] = 0 \<and> \<not> str_match ''status'' [] < 0"
  by (simp add: str_match_def)

section \<open>Properties of strtoll\<close>

lemma strtoll_loop_hex: "fst (strtoll_loop 16 s a) = True"
  by (induction s arbitrary: a) (simp_all add: Let_def)

lemma strtoll_examples:
  "strtoll ''-5'' 0 = (True, 5, True)"
  "cmd_token_get_int64 ''-5'' = Some (- 5)"
  "strtoll ''0x1F'' 0 = (True, 31, False)"
  "cmd_token_get_int64 ''0x1F'' = Some 31"
  "strtoll ''12 34'' out = (True, out, False)"
  "strtoll ''12a'' out = (False, out, False)"
  by (simp_all add: cmd_token_get_int64_def cmd_token_get_def strtoll_def c_str_def)

text \<open>
  C8: the claim says that a trailing character that is neither a digit nor a space makes
  the parse report failure. In base 16 the loop has no such branch: a byte that is not
  a hexadecimal digit only multiplies \<open>accum\<close> by 16. \<open>0x1G\<close> parses, to 16.
\<close>

theorem strtoll_hex_garbage_accepted:
  "strtoll ''0x1G'' 0 = (True, 16, False) \<and> cmd_token_get_int64 ''0x1G'' = Some 16"
  by (simp add: cmd_token_get_int64_def cmd_token_get_def strtoll_def c_str_def)

section \<open>Properties of levenshtein\<close>

text \<open>
  C9: \<open>column[0]\<close> is written only inside the loop over \<open>x\<close>. For two empty strings no
  loop runs and the function returns \<open>column[0]\<close>, which was never written: the distance
  of the empty string to itself is not \<open>0\<close> but an indeterminate value.
\<close>

theorem levenshtein_empty_empty:
  "levenshtein [] [] = Inl UninitialisedRead"
  by (simp add: levenshtein_def column_read_def)

subsection \<open>The edit distance is a metric\<close>

lemma lev_Nil2: "lev xs [] = length xs"
  by (cases xs) simp_all

lemma lev_refl: "lev xs xs = 0"
  by (induction xs) simp_all

lemma lev_sym: "lev xs ys = lev ys xs"
  by (induction xs ys rule: lev.induct) (simp_all add: lev_Nil2 min.commute min.left_commute)

lemma lev_length1: "length ys \<le> length xs + lev xs ys"
  by (induction xs ys rule: lev.induct) (auto simp: min_def)

lemma lev_length2: "length xs \<le> lev xs ys + length ys"
  by (induction xs ys rule: lev.induct) (auto simp: min_def)

lemma lev_le_sum: "lev xs ys \<le> length xs + length ys"
  by (induction xs ys rule: lev.induct) (auto simp: min_def)

lemma lev_triangle: "lev xs zs \<le> lev xs ys + lev ys zs"
proof (induction "length xs + length ys + length zs" arbitrary: xs ys zs rule: less_induct)
  case less
  show ?case
  proof (cases xs)
    case Nil
    then show ?thesis
      using lev_length1 [of zs ys] by simp
  next
    case xs: (Cons x xs')
    show ?thesis
    proof (cases zs)
      case Nil
      then show ?thesis
        using lev_length2 [of xs ys] by (simp add: lev_Nil2)
    next
      case zs: (Cons z zs')
      show ?thesis
      proof (cases ys)
        case Nil
        then show ?thesis
          using lev_le_sum [of xs zs] by (simp add: lev_Nil2)
      next
        case ys: (Cons y ys')
        define cxy cyz cxz :: nat
          where "cxy = (if x = y then 0 else 1)"
            and "cyz = (if y = z then 0 else 1)"
            and "cxz = (if x = z then 0 else 1)"
        have c: "cxz \<le> cxy + cyz"
          by (simp add: cxy_def cyz_def cxz_def)
        have g1: "lev xs zs \<le> lev xs' zs + 1"
          and g2: "lev xs zs \<le> lev xs zs' + 1"
          and g3: "lev xs zs \<le> lev xs' zs' + cxz"
          unfolding xs zs cxz_def by simp_all
        have i1: "lev xs' zs \<le> lev xs' ys + lev ys zs"
          by (rule less.hyps) (simp add: xs)
        have i2: "lev xs zs' \<le> lev xs ys + lev ys zs'"
          by (rule less.hyps) (simp add: zs)
        have i3: "lev xs' zs' \<le> lev xs' ys' + lev ys' zs'"
          by (rule less.hyps) (simp add: xs ys zs)
        have i4: "lev xs' zs \<le> lev xs' ys' + lev ys' zs"
          by (rule less.hyps) (simp add: xs ys)
        have i5: "lev xs zs \<le> lev xs ys' + lev ys' zs"
          by (rule less.hyps) (simp add: ys)
        have i6: "lev xs zs' \<le> lev xs ys' + lev ys' zs'"
          by (rule less.hyps) (simp add: ys zs)
        have a: "lev xs ys = lev xs' ys + 1 \<or> lev xs ys = lev xs ys' + 1 \<or>
                 lev xs ys = lev xs' ys' + cxy"
          unfolding xs ys cxy_def by (simp add: min_def)
        have b: "lev ys zs = lev ys' zs + 1 \<or> lev ys zs = lev ys zs' + 1 \<or>
                 lev ys zs = lev ys' zs' + cyz"
          unfolding ys zs cyz_def by (simp add: min_def)
        from a show ?thesis
        proof (elim disjE)
          assume "lev xs ys = lev xs' ys + 1"
          with g1 i1 show ?thesis by linarith
        next
          assume a2: "lev xs ys = lev xs ys' + 1"
          from b show ?thesis
          proof (elim disjE)
            assume "lev ys zs = lev ys' zs + 1"
            with a2 i5 show ?thesis by linarith
          next
            assume "lev ys zs = lev ys zs' + 1"
            with g2 i2 show ?thesis by linarith
          next
            assume "lev ys zs = lev ys' zs' + cyz"
            with a2 g2 i6 show ?thesis by linarith
          qed
        next
          assume a3: "lev xs ys = lev xs' ys' + cxy"
          from b show ?thesis
          proof (elim disjE)
            assume "lev ys zs = lev ys' zs + 1"
            with a3 g1 i4 show ?thesis by linarith
          next
            assume "lev ys zs = lev ys zs' + 1"
            with g2 i2 show ?thesis by linarith
          next
            assume "lev ys zs = lev ys' zs' + cyz"
            with a3 g3 i3 c show ?thesis by linarith
          qed
        qed
      qed
    qed
  qed
qed


subsection \<open>The loops compute the edit distance\<close>

lemma MIN3_min: "MIN3 a b c = min (min a b) c"
  by (simp add: MIN3_def min_def)

lemma lev_prefix_0x: "x \<le> length s2 \<Longrightarrow> lev_prefix s1 s2 0 x = x"
  by (simp add: lev_prefix_def)

lemma lev_prefix_y0: "y \<le> length s1 \<Longrightarrow> lev_prefix s1 s2 y 0 = y"
  by (simp add: lev_prefix_def lev_Nil2)

lemma lev_prefix_Suc:
  assumes "y < length s1" and "x < length s2"
  shows "lev_prefix s1 s2 (Suc y) (Suc x) =
     MIN3 (lev_prefix s1 s2 (Suc y) x + 1) (lev_prefix s1 s2 y (Suc x) + 1)
          (lev_prefix s1 s2 y x + (if s1 ! y = s2 ! x then 0 else 1))"
  using assms
  by (simp add: lev_prefix_def take_Suc_conv_app_nth MIN3_min min.commute min.left_commute)

lemma levenshtein_init_length: "length (levenshtein_init ys col) = length col"
  by (induction ys arbitrary: col) simp_all

lemma levenshtein_init_nth:
  "i < length col \<Longrightarrow>
   levenshtein_init ys col ! i = (if i \<in> set ys then Some i else col ! i)"
  by (induction ys arbitrary: col) (auto simp: nth_list_update)

lemma lev_row_length: "length (lev_row s1 s2 x) = Suc (length s1)"
  by (simp add: lev_row_def)

lemma lev_row_nth: "j \<le> length s1 \<Longrightarrow> lev_row s1 s2 x ! j = Some (lev_prefix s1 s2 j x)"
  unfolding lev_row_def by (simp add: nth_map_upt del: upt_Suc)

lemma levenshtein_inner_correct:
  assumes "x < length s2" and "y \<le> length s1" and "length col = Suc (length s1)"
    and "\<forall>j\<le>y. col ! j = Some (lev_prefix s1 s2 j (Suc x))"
    and "\<forall>j. y < j \<and> j \<le> length s1 \<longrightarrow> col ! j = Some (lev_prefix s1 s2 j x)"
  shows "levenshtein_inner s1 (s2 ! x) [Suc y ..< Suc (length s1)] col (lev_prefix s1 s2 y x) =
         Inr (lev_row s1 s2 (Suc x))"
  using assms(2-)
proof (induction "length s1 - y" arbitrary: y col)
  case 0
  then have y: "y = length s1"
    by simp
  have "col = lev_row s1 s2 (Suc x)"
  proof (rule nth_equalityI)
    show "length col = length (lev_row s1 s2 (Suc x))"
      using "0.prems" by (simp add: lev_row_length)
  next
    fix i
    assume "i < length col"
    with "0.prems" y show "col ! i = lev_row s1 s2 (Suc x) ! i"
      by (simp add: lev_row_nth)
  qed
  with y show ?case
    by simp
next
  case (Suc k)
  then have y: "y < length s1"
    by simp
  let ?v = "lev_prefix s1 s2 (Suc y) (Suc x)"
  let ?col = "col[Suc y := Some ?v]"
  have list: "[Suc y ..< Suc (length s1)] = Suc y # [Suc (Suc y) ..< Suc (length s1)]"
    using y by (simp add: upt_conv_Cons del: upt_Suc)
  have old: "column_read col (Suc y) = Inr (lev_prefix s1 s2 (Suc y) x)"
    using Suc.prems y by (simp add: column_read_def)
  have left: "column_read col y = Inr (lev_prefix s1 s2 y (Suc x))"
    using Suc.prems by (simp add: column_read_def)
  have step: "levenshtein_inner s1 (s2 ! x) [Suc y ..< Suc (length s1)] col (lev_prefix s1 s2 y x) =
      levenshtein_inner s1 (s2 ! x) [Suc (Suc y) ..< Suc (length s1)] ?col
        (lev_prefix s1 s2 (Suc y) x)"
    unfolding list using old left lev_prefix_Suc [OF y assms(1)] by simp
  have "levenshtein_inner s1 (s2 ! x) [Suc (Suc y) ..< Suc (length s1)] ?col
          (lev_prefix s1 s2 (Suc y) x) = Inr (lev_row s1 s2 (Suc x))"
  proof (rule Suc.hyps)
    show "k = length s1 - Suc y"
      using Suc.hyps(2) by simp
    show "Suc y \<le> length s1"
      using y by simp
    show "length ?col = Suc (length s1)"
      using Suc.prems by simp
    show "\<forall>j\<le>Suc y. ?col ! j = Some (lev_prefix s1 s2 j (Suc x))"
      using Suc.prems y by (auto simp: nth_list_update le_Suc_eq)
    show "\<forall>j. Suc y < j \<and> j \<le> length s1 \<longrightarrow> ?col ! j = Some (lev_prefix s1 s2 j x)"
      using Suc.prems by (auto simp: nth_list_update)
  qed
  with step show ?case
    by simp
qed

lemma levenshtein_outer_correct:
  assumes "k \<le> length s2" and "length col = Suc (length s1)"
    and "\<forall>j. 0 < j \<and> j \<le> length s1 \<longrightarrow> col ! j = Some (lev_prefix s1 s2 j k)"
  shows "levenshtein_outer s1 s2 [Suc k ..< Suc (length s2)] col =
         Inr (if k = length s2 then col else lev_row s1 s2 (length s2))"
  using assms
proof (induction "length s2 - k" arbitrary: k col)
  case 0
  then show ?case
    by simp
next
  case (Suc d)
  then have k: "k < length s2"
    by simp
  let ?col = "col[0 := Some (Suc k)]"
  have list: "[Suc k ..< Suc (length s2)] = Suc k # [Suc (Suc k) ..< Suc (length s2)]"
    using k by (simp add: upt_conv_Cons del: upt_Suc)
  have inner: "levenshtein_inner s1 (s2 ! k) [Suc 0 ..< Suc (length s1)] ?col
                 (lev_prefix s1 s2 0 k) = Inr (lev_row s1 s2 (Suc k))"
  proof (rule levenshtein_inner_correct [OF k])
    show "0 \<le> length s1"
      by simp
    show "length ?col = Suc (length s1)"
      using Suc.prems by simp
    show "\<forall>j\<le>0. ?col ! j = Some (lev_prefix s1 s2 j (Suc k))"
      using Suc.prems k by (simp add: lev_prefix_0x)
    show "\<forall>j. 0 < j \<and> j \<le> length s1 \<longrightarrow> ?col ! j = Some (lev_prefix s1 s2 j k)"
      using Suc.prems by simp
  qed
  have rest: "levenshtein_outer s1 s2 [Suc (Suc k) ..< Suc (length s2)] (lev_row s1 s2 (Suc k)) =
      Inr (if Suc k = length s2 then lev_row s1 s2 (Suc k) else lev_row s1 s2 (length s2))"
  proof (rule Suc.hyps)
    show "d = length s2 - Suc k"
      using Suc.hyps(2) by simp
    show "Suc k \<le> length s2"
      using k by simp
    show "length (lev_row s1 s2 (Suc k)) = Suc (length s1)"
      by (rule lev_row_length)
    show "\<forall>j. 0 < j \<and> j \<le> length s1 \<longrightarrow>
            lev_row s1 s2 (Suc k) ! j = Some (lev_prefix s1 s2 j (Suc k))"
      by (simp add: lev_row_nth)
  qed
  have k0: "lev_prefix s1 s2 0 k = k"
    using k by (simp add: lev_prefix_0x)
  show ?case
    unfolding list using inner rest k by (auto simp: k0 simp del: upt_Suc)
qed

text \<open>
  Apart from that case \<open>levenshtein\<close> returns, and what it returns is the edit distance
  of the two strings (read backwards).
\<close>

lemma levenshtein_correct:
  "levenshtein s1 s2 =
     (if s1 = [] \<and> s2 = [] then Inl UninitialisedRead else Inr (lev (rev s1) (rev s2)))"
proof -
  let ?c0 = "levenshtein_init [1 ..< Suc (length s1)] (replicate (length s1 + 1) None)"
  have len: "length ?c0 = Suc (length s1)"
    by (simp add: levenshtein_init_length)
  have c0: "\<forall>j. 0 < j \<and> j \<le> length s1 \<longrightarrow> ?c0 ! j = Some (lev_prefix s1 s2 j 0)"
    by (auto simp: levenshtein_init_nth lev_prefix_y0 simp del: upt_Suc)
  have c00: "?c0 ! 0 = None"
    by (simp add: levenshtein_init_nth del: upt_Suc)
  have outer: "levenshtein_outer s1 s2 [1 ..< Suc (length s2)] ?c0 =
      Inr (if 0 = length s2 then ?c0 else lev_row s1 s2 (length s2))"
    using levenshtein_outer_correct [of 0 s2 ?c0 s1, OF _ len c0] by simp
  have full: "lev_prefix s1 s2 (length s1) (length s2) = lev (rev s1) (rev s2)"
    by (simp add: lev_prefix_def)
  show ?thesis
  proof (cases "s2 = []")
    case False
    with outer full show ?thesis
      unfolding levenshtein_def Let_def
      by (simp add: column_read_def lev_row_nth del: upt_Suc)
  next
    case True
    show ?thesis
    proof (cases "s1 = []")
      case True
      with \<open>s2 = []\<close> show ?thesis
        by (simp add: levenshtein_def column_read_def)
    next
      case False
      then have "0 < length s1 \<and> length s1 \<le> length s1"
        by simp
      with c0 have "?c0 ! length s1 = Some (lev_prefix s1 s2 (length s1) 0)"
        by blast
      with outer full True False show ?thesis
        unfolding levenshtein_def Let_def
        by (simp add: column_read_def del: upt_Suc)
    qed
  qed
qed

text \<open>
  Hence, on strings that are not both empty, the distance of a string to itself is \<open>0\<close>;
  the result is symmetric on all strings; and the triangle inequality holds whenever
  the three calls return.
\<close>

lemma levenshtein_metric:
  "(a \<noteq> [] \<longrightarrow> levenshtein a a = Inr 0) \<and>
   levenshtein a b = levenshtein b a \<and>
   (levenshtein a b = Inr dab \<and> levenshtein b c = Inr dbc \<and> levenshtein a c = Inr dac \<longrightarrow>
      dac \<le> dab + dbc)"
proof -
  have "levenshtein a a = Inr 0" if "a \<noteq> []"
    using that by (simp add: levenshtein_correct lev_refl)
  moreover have "levenshtein a b = levenshtein b a"
    using lev_sym [of "rev a" "rev b"] by (auto simp: levenshtein_correct)
  moreover have "dac \<le> dab + dbc"
    if "levenshtein a b = Inr dab \<and> levenshtein b c = Inr dbc \<and> levenshtein a c = Inr dac"
    using that lev_triangle [of "rev a" "rev c" "rev b"]
    by (auto simp: levenshtein_correct split: if_splits)
  ultimately show ?thesis
    by blast
qed

section \<open>Properties of the tokenizer\<close>

lemma tokenize_loop_Nil: "tokenize_loop [] cur out = Some (cur, out)"
  by (subst tokenize_loop.simps) simp

lemma tokenize_loop_Cons:
  "tokenize_loop (c # cs) cur out =
     (if c = CHR '' '' \<or> c = CHR 0x09 then
        tokenize_loop (dropWhile (\<lambda>c. c = CHR '' '') (c # cs)) [] (push cur out)
      else tokenize_loop cs (cur @ [c]) out)"
  by (subst tokenize_loop.simps) simp

lemma tokenize_loop_tab_Some:
  assumes "tokenize_loop src cur out = Some r"
  shows "src = [] \<or> hd src \<noteq> CHR 0x09"
proof (rule tokenize_loop.raw_induct
    [where P = "\<lambda>src cur out r. src = [] \<or> hd src \<noteq> CHR 0x09", OF _ assms])
  fix loop :: "string \<Rightarrow> string \<Rightarrow> cmd_tokens \<Rightarrow> (string \<times> cmd_tokens) option"
    and src cur :: string and out :: cmd_tokens and r :: "string \<times> cmd_tokens"
  assume IH: "\<And>src cur out r. loop src cur out = Some r \<Longrightarrow> src = [] \<or> hd src \<noteq> CHR 0x09"
    and step: "(case src of
        [] \<Rightarrow> Some (cur, out)
      | c # cs \<Rightarrow>
          if c = CHR '' '' \<or> c = CHR 0x09 then
            loop (dropWhile (\<lambda>c. c = CHR '' '') src) [] (push cur out)
          else loop cs (cur @ [c]) out) = Some r"
  show "src = [] \<or> hd src \<noteq> CHR 0x09"
  proof (cases src)
    case Nil
    then show ?thesis by simp
  next
    case (Cons c cs)
    show ?thesis
    proof (cases "c = CHR 0x09")
      case True
      with Cons step have "loop (c # cs) [] (push cur out) = Some r"
        by simp
      from IH [OF this] True show ?thesis by simp
    next
      case False
      with Cons show ?thesis by simp
    qed
  qed
qed

lemma tokenize_loop_tab: "tokenize_loop (CHR 0x09 # cs) cur out = None"
proof (cases "tokenize_loop (CHR 0x09 # cs) cur out")
  case None
  then show ?thesis .
next
  case (Some r)
  from tokenize_loop_tab_Some [OF this] show ?thesis by simp
qed

lemma tokenize_loop_diverges:
  "CHR 0x09 \<in> set src \<Longrightarrow> tokenize_loop src cur out = None"
proof (induction "length src" arbitrary: src cur out rule: less_induct)
  case less
  from less.prems obtain c cs where src: "src = c # cs"
    by (cases src) auto
  show ?case
  proof (cases "c = CHR 0x09")
    case True
    with src show ?thesis by (simp add: tokenize_loop_tab)
  next
    case nt: False
    show ?thesis
    proof (cases "c = CHR '' ''")
      case True
      let ?d = "dropWhile (\<lambda>c. c = CHR '' '') cs"
      have len: "length ?d < length src"
        using src length_dropWhile_le [of "\<lambda>c. c = CHR '' ''" cs] by simp
      have "CHR 0x09 \<in> set cs"
        using less.prems src nt by simp
      then have "CHR 0x09 \<in> set ?d"
        by (induction cs) auto
      from less.hyps [OF len this] src True show ?thesis
        by (simp add: tokenize_loop_Cons)
    next
      case False
      have "CHR 0x09 \<in> set cs"
        using less.prems src nt by simp
      from less.hyps [OF _ this] src nt False show ?thesis
        by (simp add: tokenize_loop_Cons)
    qed
  qed
qed

lemma tokenize_diverges: "CHR 0x09 \<in> set inp \<Longrightarrow> tokenize inp t = None"
  by (simp add: tokenize_def tokenize_loop_diverges)

lemma tokenize_loop_returns:
  "CHR 0x09 \<notin> set src \<Longrightarrow> \<exists>r. tokenize_loop src cur out = Some r"
proof (induction "length src" arbitrary: src cur out rule: less_induct)
  case less
  show ?case
  proof (cases src)
    case Nil
    then show ?thesis by (simp add: tokenize_loop_Nil)
  next
    case (Cons c cs)
    show ?thesis
    proof (cases "c = CHR '' ''")
      case True
      let ?d = "dropWhile (\<lambda>c. c = CHR '' '') cs"
      have len: "length ?d < length src"
        using Cons length_dropWhile_le [of "\<lambda>c. c = CHR '' ''" cs] by simp
      have "CHR 0x09 \<notin> set ?d"
        using less.prems Cons set_dropWhileD [of "CHR 0x09" "\<lambda>c. c = CHR '' ''" cs] by auto
      from less.hyps [OF len this] Cons True show ?thesis
        by (simp add: tokenize_loop_Cons)
    next
      case False
      have "CHR 0x09 \<notin> set cs" "c \<noteq> CHR 0x09"
        using less.prems Cons by auto
      with less.hyps [of cs] Cons False show ?thesis
        by (simp add: tokenize_loop_Cons)
    qed
  qed
qed

lemma tokenize_loop_space_run:
  "dropWhile (\<lambda>c. c = CHR '' '') src1 = dropWhile (\<lambda>c. c = CHR '' '') src2 \<Longrightarrow>
   tokenize_loop (CHR '' '' # src1) cur out = tokenize_loop (CHR '' '' # src2) cur out"
  by (simp add: tokenize_loop_Cons)

text \<open>
  C4: at a tab the word is pushed, the inner loop steps over spaces only, and the outer
  loop meets the same tab again: \<open>tokenize\<close> never returns on an input with a tab in it,
  so a tab does not separate words the way a space does.
\<close>

theorem tokenize_tab_never_returns:
  "tokenize (''a'' @ [CHR 0x09] @ ''b'') (cmd_tokens_t ids) = None"
  by (rule tokenize_diverges) simp

lemma substitute_no_dollar: "hd w \<noteq> CHR ''$'' \<Longrightarrow> substitute ids w = w"
  by (simp add: substitute_def split: option.splits)

lemma push_record:
  "push w \<lparr>idents = ids, raw = r, stage_pair = (s, v), tokens = ts, pairs = ps, flags = fs\<rparr> =
     (if w = [] then
        \<lparr>idents = ids, raw = r, stage_pair = ([], v), tokens = ts, pairs = ps,
         flags = (if s \<noteq> [] then insert s fs else fs)\<rparr>
      else if prefix ''-'' (substitute ids w) then
        \<lparr>idents = ids, raw = r @ [substitute ids w], stage_pair = (substitute ids w, v),
         tokens = ts, pairs = ps, flags = (if s \<noteq> [] then insert s fs else fs)\<rparr>
      else if s \<noteq> [] then
        \<lparr>idents = ids, raw = r @ [substitute ids w], stage_pair = ([], v),
         tokens = ts, pairs = ps(s \<mapsto> substitute ids w), flags = fs\<rparr>
      else
        \<lparr>idents = ids, raw = r @ [substitute ids w], stage_pair = ([], v),
         tokens = ts @ [substitute ids w], pairs = ps, flags = fs\<rparr>)"
  by (simp add: push_def Let_def)

lemma substitute_flag: "prefix ''-'' f \<Longrightarrow> substitute ids f = f"
  by (rule substitute_no_dollar) (auto simp: prefix_def)

lemma push_flag_value:
  assumes "prefix ''-'' f" and "w \<noteq> []" and "\<not> prefix ''-'' (substitute (idents t) w)"
  shows "pairs (push w (push f t)) = (pairs t)(f \<mapsto> substitute (idents t) w) \<and>
         tokens (push w (push f t)) = tokens t \<and>
         raw (push w (push f t)) = raw t @ [f, substitute (idents t) w] \<and>
         fst (stage_pair (push w (push f t))) = []"
proof -
  obtain ids r s v ts ps fs where t:
    "t = \<lparr>idents = ids, raw = r, stage_pair = (s, v), tokens = ts, pairs = ps, flags = fs\<rparr>"
    by (cases t) auto
  from assms(1) have "f \<noteq> []"
    by auto
  with assms show ?thesis
    unfolding t by (simp add: push_record substitute_flag)
qed

lemma push_flag_alone:
  assumes "prefix ''-'' f"
  shows "f \<in> flags (push [] (push f t)) \<and> pairs (push [] (push f t)) = pairs t \<and>
         tokens (push [] (push f t)) = tokens t"
    and "prefix ''-'' g \<Longrightarrow>
         f \<in> flags (push g (push f t)) \<and> pairs (push g (push f t)) = pairs t \<and>
         tokens (push g (push f t)) = tokens t"
proof -
  obtain ids r s v ts ps fs where t:
    "t = \<lparr>idents = ids, raw = r, stage_pair = (s, v), tokens = ts, pairs = ps, flags = fs\<rparr>"
    by (cases t) auto
  from assms have f: "f \<noteq> []"
    by auto
  with assms show "f \<in> flags (push [] (push f t)) \<and> pairs (push [] (push f t)) = pairs t \<and>
         tokens (push [] (push f t)) = tokens t"
    unfolding t by (simp add: push_record substitute_flag)
  assume g: "prefix ''-'' g"
  then have "g \<noteq> []"
    by auto
  with assms f g show "f \<in> flags (push g (push f t)) \<and> pairs (push g (push f t)) = pairs t \<and>
         tokens (push g (push f t)) = tokens t"
    unfolding t by (simp add: push_record substitute_flag)
qed

text \<open>
  C6: the token stream of \<open>-v foo bar -x\<close> is one positional token \<open>bar\<close>, the pair
  \<open>-v: foo\<close> and the flag \<open>-x\<close>, whatever the identifier table is. In general, on any
  stream: a word that begins with \<open>-\<close> followed by a word that does not makes one pair
  and no positional token; a word that begins with \<open>-\<close> followed by the final flush or
  by another such word is put into the flags.
\<close>

theorem tokenize_example:
  "tokenize ''-v foo bar -x'' (cmd_tokens_t ids) =
     Some (1, \<lparr>idents = ids, raw = [''-v'', ''foo'', ''bar'', ''-x''], stage_pair = ([], []),
               tokens = [''bar''], pairs = [''-v'' \<mapsto> ''foo''], flags = {''-x''}\<rparr>) \<and>
   (prefix ''-'' f \<and> w \<noteq> [] \<and> \<not> prefix ''-'' (substitute (idents t) w) \<longrightarrow>
      pairs (push w (push f t)) = (pairs t)(f \<mapsto> substitute (idents t) w) \<and>
      tokens (push w (push f t)) = tokens t) \<and>
   (prefix ''-'' f \<longrightarrow> f \<in> flags (push [] (push f t))) \<and>
   (prefix ''-'' f \<and> prefix ''-'' g \<longrightarrow> f \<in> flags (push g (push f t)))"
proof -
  have "tokenize ''-v foo bar -x'' (cmd_tokens_t ids) =
     Some (1, \<lparr>idents = ids, raw = [''-v'', ''foo'', ''bar'', ''-x''], stage_pair = ([], []),
               tokens = [''bar''], pairs = [''-v'' \<mapsto> ''foo''], flags = {''-x''}\<rparr>)"
    by (simp add: tokenize_def tokenize_loop_Nil tokenize_loop_Cons push_record cmd_tokens_t_def
        substitute_no_dollar Let_def)
  then show ?thesis
    using push_flag_value [of f w t] push_flag_alone(1) [of f t]
      push_flag_alone(2) [where f = f and g = g and t = t]
    by blast
qed

theorem tokenize_example_witness:
  "pairs (push ''foo'' (push ''-v'' (cmd_tokens_t None))) = [''-v'' \<mapsto> ''foo''] \<and>
   tokens (push ''foo'' (push ''-v'' (cmd_tokens_t None))) = [] \<and>
   ''-x'' \<in> flags (push [] (push ''-x'' (cmd_tokens_t None))) \<and>
   ''-v'' \<in> flags (push ''-x'' (push ''-v'' (cmd_tokens_t None)))"
  using tokenize_example [where f = "''-v''" and w = "''foo''" and t = "cmd_tokens_t None"
      and g = "''-x''"]
    tokenize_example [where f = "''-x''" and t = "cmd_tokens_t None"]
  by (simp add: substitute_def cmd_tokens_t_def)

lemma push_all_append: "push_all (xs @ ys) t = push_all ys (push_all xs t)"
  by (induction xs arbitrary: t) auto

lemma split_on_not_Nil: "split_on d s \<noteq> []"
  by (induction s) auto

lemma split_on_dropWhile:
  "split_on d cs =
     replicate (length (takeWhile (\<lambda>c. c = d) cs)) [] @ split_on d (dropWhile (\<lambda>c. c = d) cs)"
  by (induction cs) auto

lemma hd_split_on: "s \<noteq> [] \<Longrightarrow> hd s \<noteq> d \<Longrightarrow> hd (split_on d s) \<noteq> []"
  by (cases s) auto

lemma split_on_single: "tl (split_on d s) = [] \<longleftrightarrow> d \<notin> set s"
  by (induction s) (auto simp: split_on_not_Nil)

lemma filter_replicate_Nil: "filter (\<lambda>w. w \<noteq> []) (replicate k [] @ xs) = filter (\<lambda>w. w \<noteq> []) xs"
  by (induction k) auto

lemma scan_result_Nil: "scan_result [] cur out = (cur, out)"
  by (simp add: scan_result_def)

lemma scan_result_char:
  "c \<noteq> CHR '' '' \<Longrightarrow> scan_result (c # cs) cur out = scan_result cs (cur @ [c]) out"
  by (simp add: scan_result_def Let_def split_on_not_Nil last_tl)

lemma scan_result_space:
  "scan_result (CHR '' '' # cs) cur out =
     scan_result (dropWhile (\<lambda>c. c = CHR '' '') cs) [] (push cur out)"
proof -
  let ?d = "dropWhile (\<lambda>c. c = CHR '' '') cs"
  let ?k = "length (takeWhile (\<lambda>c. c = CHR '' '') cs)"
  let ?ws = "split_on (CHR '' '') ?d"
  have sp: "split_on (CHR '' '') cs = replicate ?k [] @ ?ws"
    by (rule split_on_dropWhile)
  have ne: "?ws \<noteq> []"
    by (rule split_on_not_Nil)
  have l: "last (split_on (CHR '' '') cs) = last ?ws"
    using ne by (simp add: sp)
  have b: "filter (\<lambda>w. w \<noteq> []) (butlast (split_on (CHR '' '') cs)) =
           filter (\<lambda>w. w \<noteq> []) (butlast ?ws)"
    using ne by (simp add: sp butlast_append filter_replicate_Nil)
  have lhs: "scan_result (CHR '' '' # cs) cur out =
      (last ?ws, push_all (filter (\<lambda>w. w \<noteq> []) (butlast ?ws)) (push cur out))"
    by (simp add: scan_result_def Let_def split_on_not_Nil l b)
  show ?thesis
  proof (cases "tl ?ws = []")
    case True
    with ne obtain w where w: "?ws = [w]"
      by (cases ?ws) auto
    with lhs show ?thesis
      by (simp add: scan_result_def Let_def)
  next
    case False
    have d: "?d \<noteq> []"
    proof
      assume "?d = []"
      then have "?ws = [[]]"
        by (simp only: split_on.simps)
      with False show False
        by (simp only: list.sel)
    qed
    from hd_dropWhile [of "\<lambda>c. c = CHR '' ''" cs, OF d]
    have "hd ?d \<noteq> CHR '' ''" .
    with d have h: "hd ?ws \<noteq> []"
      by (rule hd_split_on)
    from ne False obtain w ws' where w: "?ws = w # ws'" "ws' \<noteq> []"
      by (cases ?ws) auto
    with h lhs show ?thesis
      by (simp add: scan_result_def Let_def)
  qed
qed

lemma tokenize_loop_scan:
  "CHR 0x09 \<notin> set src \<Longrightarrow> tokenize_loop src cur out = Some (scan_result src cur out)"
proof (induction "length src" arbitrary: src cur out rule: less_induct)
  case less
  show ?case
  proof (cases src)
    case Nil
    then show ?thesis by (simp add: tokenize_loop_Nil scan_result_Nil)
  next
    case (Cons c cs)
    show ?thesis
    proof (cases "c = CHR '' ''")
      case True
      let ?d = "dropWhile (\<lambda>c. c = CHR '' '') cs"
      have len: "length ?d < length src"
        using Cons length_dropWhile_le [of "\<lambda>c. c = CHR '' ''" cs] by simp
      have "CHR 0x09 \<notin> set ?d"
        using less.prems Cons set_dropWhileD [of "CHR 0x09" "\<lambda>c. c = CHR '' ''" cs] by auto
      from less.hyps [OF len this] Cons True show ?thesis
        by (simp add: tokenize_loop_Cons scan_result_space)
    next
      case False
      have "CHR 0x09 \<notin> set cs" "c \<noteq> CHR 0x09"
        using less.prems Cons by auto
      with less.hyps [of cs] Cons False show ?thesis
        by (simp add: tokenize_loop_Cons scan_result_char)
    qed
  qed
qed

lemma push_empty_unstaged: "fst (stage_pair t) = [] \<Longrightarrow> push [] t = t"
  by (simp add: push_def)

text \<open>
  On an input without a tab \<open>tokenize\<close> returns, and its result is the words of the
  input pushed in order and then flushed: it depends on the words only, not on how many
  spaces separate them or surround them.
\<close>

lemma tokenize_spaces:
  assumes "CHR 0x09 \<notin> set inp" and "fst (stage_pair t) = []"
  shows "tokenize inp t =
     Some (length (tokens (push [] (push_all (words inp) t))),
           push [] (push_all (words inp) t))"
proof -
  let ?ws = "split_on (CHR '' '') inp"
  have ne: "?ws \<noteq> []"
    by (rule split_on_not_Nil)
  have loop: "tokenize_loop inp [] t = Some (scan_result inp [] t)"
    using assms(1) by (rule tokenize_loop_scan)
  show ?thesis
  proof (cases "tl ?ws = []")
    case True
    with ne obtain w where w: "?ws = [w]"
      by (cases ?ws) auto
    then have "words inp = (if w \<noteq> [] then [w] else [])"
      by (simp add: words_def)
    with w show ?thesis
      by (simp add: tokenize_def loop scan_result_def Let_def)
  next
    case False
    with ne obtain w ws' where w: "?ws = w # ws'" "ws' \<noteq> []"
      by (cases ?ws) auto
    then have "words inp = filter (\<lambda>w. w \<noteq> []) (w # butlast ws' @ [last ws'])"
      by (simp add: words_def)
    then have "push_all (words inp) t =
        push_all (filter (\<lambda>w. w \<noteq> []) [last ws'])
          (push_all (filter (\<lambda>w. w \<noteq> []) (butlast ws')) (push w t))"
      using assms(2) by (simp add: push_all_append push_empty_unstaged)
    with w show ?thesis
      by (simp add: tokenize_def loop scan_result_def Let_def)
  qed
qed

lemma tokenize_returns:
  "CHR 0x09 \<notin> set inp \<Longrightarrow> \<exists>n toks. tokenize inp (cmd_tokens_t ids) = Some (n, toks)"
  using tokenize_spaces [of inp "cmd_tokens_t ids"] by (simp add: cmd_tokens_t_def)

lemma tokenize_empty: "tokenize [] (cmd_tokens_t ids) = Some (0, cmd_tokens_t ids)"
  by (simp add: tokenize_def tokenize_loop_Nil push_def cmd_tokens_t_def)

lemma c_str_no_tab: "CHR 0x09 \<notin> set s \<Longrightarrow> CHR 0x09 \<notin> set (c_str s)"
  unfolding c_str_def by (auto dest: set_takeWhileD)

section \<open>Invariants of the token stream\<close>















section \<open>Properties of execute\_imp\<close>

lemma execute_imp_empty_history:
  "history p = [] \<Longrightarrow> execute_imp p expr out = Some (Inl BackOfEmpty)"
  by (subst execute_imp.simps) (simp add: last_cmd_def)

lemma execute_imp_step:
  "history p \<noteq> [] \<Longrightarrow>
   execute_imp p expr out =
     (case tokenize (c_str expr) (cmd_tokens_t (Some (parser_idents p))) of
        None \<Rightarrow> None
      | Some (n, toks) \<Rightarrow>
          if n = 0 then
            (if expr \<noteq> [] then
               execute_imp (p\<lparr>history := history p @ [expr]\<rparr>) (last (history p))
                 (println [B True, S (c_str (last (history p)))] out)
             else Some (Inr (False, p\<lparr>history := history p @ [expr]\<rparr>, out)))
          else Some (dispatch (p\<lparr>history := history p @ [expr]\<rparr>) toks out))"
  by (subst execute_imp.simps) (simp add: last_cmd_def Let_def split: option.splits)

lemma token_pop_fault: "token_pop t = Inl e \<Longrightarrow> e \<noteq> BackOfEmpty"
  by (auto simp: token_pop_def split: if_splits)

lemma walk_fault: "walk list cmd toks out = Inl e \<Longrightarrow> e \<noteq> BackOfEmpty"
proof (induction list cmd toks out rule: walk.induct)
  case (1 list cmd toks out)
  show ?case
  proof (cases "token_pop toks")
    case (Inl e')
    with "1.prems" token_pop_fault [OF Inl] show ?thesis
      by (subst (asm) walk.simps) (auto simp: Let_def split: if_splits)
  next
    case (Inr toks')
    with "1.prems" "1.IH" [OF _ refl _ _ Inr] show ?thesis
      by (subst (asm) walk.simps) (auto simp: Let_def split: if_splits)
  qed
qed

lemma column_read_fault: "column_read c y = Inl e \<Longrightarrow> e \<noteq> BackOfEmpty"
  by (auto simp: column_read_def split: option.splits)

lemma levenshtein_inner_fault:
  "levenshtein_inner s1 c2 ys column lastdiag = Inl e \<Longrightarrow> e \<noteq> BackOfEmpty"
  by (induction s1 c2 ys column lastdiag rule: levenshtein_inner.induct)
     (auto split: sum.splits dest: column_read_fault)

lemma levenshtein_outer_fault:
  "levenshtein_outer s1 s2 xs column = Inl e \<Longrightarrow> e \<noteq> BackOfEmpty"
  by (induction s1 s2 xs column rule: levenshtein_outer.induct)
     (auto split: sum.splits dest: levenshtein_inner_fault)

lemma levenshtein_fault: "levenshtein s1 s2 = Inl e \<Longrightarrow> e \<noteq> BackOfEmpty"
  by (auto simp: levenshtein_def Let_def split: sum.splits
      dest: levenshtein_outer_fault column_read_fault)

lemma fuzzy_list_fault: "fuzzy_list cs tok list = Inl e \<Longrightarrow> e \<noteq> BackOfEmpty"
  by (induction cs tok list rule: fuzzy_list.induct)
     (auto split: sum.splits dest: levenshtein_fault)

lemma on_execute_fault: "on_execute c toks out = Inl e \<Longrightarrow> e \<noteq> BackOfEmpty"
  by (auto simp: on_execute_def cmd_t_on_execute_def Let_def
      split: option.splits if_splits sum.splits dest: fuzzy_list_fault)

lemma on_usage_fault: "on_usage c out = Inl e \<Longrightarrow> e \<noteq> BackOfEmpty"
  by (auto simp: on_usage_def split: option.splits)

lemma invoke_fault: "invoke cmd toks out = Inl e \<Longrightarrow> e \<noteq> BackOfEmpty"
  by (auto simp: invoke_def split: option.splits if_splits
      dest: on_execute_fault on_usage_fault)

lemma resolve_fault: "resolve p toks out = Inl e \<Longrightarrow> e \<noteq> BackOfEmpty"
  by (auto simp: resolve_def split: option.splits sum.splits
      dest: token_pop_fault walk_fault)

lemma dispatch_fault: "dispatch p toks out = Inl e \<Longrightarrow> e \<noteq> BackOfEmpty"
  by (auto simp: dispatch_def split: sum.splits prod.splits
      dest: resolve_fault invoke_fault)

lemma dispatch_parser: "dispatch p toks out = Inr (r, p', out') \<Longrightarrow> p' = p"
  by (auto simp: dispatch_def split: sum.splits prod.splits)


lemma execute_imp_not_BackOfEmpty_aux:
  assumes "execute_imp p expr out = Some y"
  shows "history p \<noteq> [] \<longrightarrow> y \<noteq> Inl BackOfEmpty"
proof (rule execute_imp.raw_induct
    [where P = "\<lambda>p expr out y. history p \<noteq> [] \<longrightarrow> y \<noteq> Inl BackOfEmpty", OF _ assms])
  fix imp :: "cmd_parser \<Rightarrow> string \<Rightarrow> cmd_output \<Rightarrow>
      (fault + (bool \<times> cmd_parser \<times> cmd_output)) option"
    and p :: cmd_parser and expr :: string and out :: cmd_output
    and y :: "fault + (bool \<times> cmd_parser \<times> cmd_output)"
  assume IH: "\<And>p expr out y. imp p expr out = Some y \<Longrightarrow>
      history p \<noteq> [] \<longrightarrow> y \<noteq> Inl BackOfEmpty"
    and step: "(case last_cmd p of
        Inl e \<Rightarrow> Some (Inl e)
      | Inr prev_cmd \<Rightarrow>
          (let p1 = p\<lparr>history := history p @ [expr]\<rparr> in
           case tokenize (c_str expr) (cmd_tokens_t (Some (parser_idents p1))) of
             None \<Rightarrow> None
           | Some (n, toks) \<Rightarrow>
               if n = 0 then
                 (case last_cmd p1 of
                    Inl e \<Rightarrow> Some (Inl e)
                  | Inr l \<Rightarrow>
                      if l \<noteq> [] then
                        imp p1 prev_cmd
                          (println [B True, S (c_str prev_cmd)] out)
                      else Some (Inr (False, p1, out)))
               else Some (dispatch p1 toks out))) = Some y"
  show "history p \<noteq> [] \<longrightarrow> y \<noteq> Inl BackOfEmpty"
  proof
    assume h: "history p \<noteq> []"
    show "y \<noteq> Inl BackOfEmpty"
    proof (cases "tokenize (c_str expr) (cmd_tokens_t (Some (parser_idents p)))")
      case None
      with step h show ?thesis
        by (simp add: last_cmd_def)
    next
      case (Some nt)
      obtain n toks where nt: "nt = (n, toks)"
        by (cases nt)
      show ?thesis
      proof (cases "n = 0")
        case False
        with step h Some nt
        have "dispatch (p\<lparr>history := history p @ [expr]\<rparr>) toks out = y"
          by (simp add: last_cmd_def)
        then show ?thesis
          using dispatch_fault by blast
      next
        case True
        show ?thesis
        proof (cases "expr = []")
          case True
          with step h Some nt \<open>n = 0\<close> show ?thesis
            by (auto simp: last_cmd_def)
        next
          case False
          with step h Some nt \<open>n = 0\<close>
          have "imp (p\<lparr>history := history p @ [expr]\<rparr>) (last (history p))
                  (println [B True, S (c_str (last (history p)))] out) = Some y"
            by (simp add: last_cmd_def)
          from IH [OF this] show ?thesis
            by simp
        qed
      qed
    qed
  qed
qed

text \<open>
  C10: \<open>execute_imp\<close> reads \<open>history_.back()\<close> through \<open>last_cmd\<close> before it appends
  the statement. The read is a fault exactly when the history is empty, and no later step
  of \<open>execute_imp\<close> reads the back of an empty history: the call ends in this fault if
  and only if it starts with an empty history, as the first call on a new parser does.
\<close>

theorem execute_imp_reads_back_of_history:
  "(last_cmd p = Inl BackOfEmpty \<longleftrightarrow> history p = []) \<and>
   (execute_imp p expr out = Some (Inl BackOfEmpty) \<longleftrightarrow> history p = [])"
proof -
  have "last_cmd p = Inl BackOfEmpty \<longleftrightarrow> history p = []"
    by (simp add: last_cmd_def)
  moreover have "execute_imp p expr out = Some (Inl BackOfEmpty)" if "history p = []"
    using that by (rule execute_imp_empty_history)
  moreover have "history p = []" if "execute_imp p expr out = Some (Inl BackOfEmpty)"
    using execute_imp_not_BackOfEmpty_aux [OF that] by blast
  ultimately show ?thesis
    by blast
qed


lemma execute_empty: "execute p [] out = Some (Inr (True, p, out))"
  by (simp add: execute_def execute_loop.simps execute_single_def)

lemma execute_imp_history_aux:
  assumes "execute_imp p expr out = Some y"
  shows "\<forall>r p' out'. y = Inr (r, p', out') \<longrightarrow>
           history p' \<noteq> [] \<and> parser_idents p' = parser_idents p \<and>
           (last (history p') = [] \<and> \<not> r \<or>
            (\<exists>n toks. tokenize (c_str (last (history p')))
                         (cmd_tokens_t (Some (parser_idents p'))) = Some (Suc n, toks)))"
proof (rule execute_imp.raw_induct
    [where P = "\<lambda>p expr out y. \<forall>r p' out'. y = Inr (r, p', out') \<longrightarrow>
           history p' \<noteq> [] \<and> parser_idents p' = parser_idents p \<and>
           (last (history p') = [] \<and> \<not> r \<or>
            (\<exists>n toks. tokenize (c_str (last (history p')))
                         (cmd_tokens_t (Some (parser_idents p'))) = Some (Suc n, toks)))",
     OF _ assms])
  fix imp :: "cmd_parser \<Rightarrow> string \<Rightarrow> cmd_output \<Rightarrow>
      (fault + (bool \<times> cmd_parser \<times> cmd_output)) option"
    and p :: cmd_parser and expr :: string and out :: cmd_output
    and y :: "fault + (bool \<times> cmd_parser \<times> cmd_output)"
  assume IH: "\<And>p expr out y. imp p expr out = Some y \<Longrightarrow>
      \<forall>r p' out'. y = Inr (r, p', out') \<longrightarrow>
           history p' \<noteq> [] \<and> parser_idents p' = parser_idents p \<and>
           (last (history p') = [] \<and> \<not> r \<or>
            (\<exists>n toks. tokenize (c_str (last (history p')))
                         (cmd_tokens_t (Some (parser_idents p'))) = Some (Suc n, toks)))"
    and step: "(case last_cmd p of
        Inl e \<Rightarrow> Some (Inl e)
      | Inr prev_cmd \<Rightarrow>
          (let p1 = p\<lparr>history := history p @ [expr]\<rparr> in
           case tokenize (c_str expr) (cmd_tokens_t (Some (parser_idents p1))) of
             None \<Rightarrow> None
           | Some (n, toks) \<Rightarrow>
               if n = 0 then
                 (case last_cmd p1 of
                    Inl e \<Rightarrow> Some (Inl e)
                  | Inr l \<Rightarrow>
                      if l \<noteq> [] then
                        imp p1 prev_cmd
                          (println [B True, S (c_str prev_cmd)] out)
                      else Some (Inr (False, p1, out)))
               else Some (dispatch p1 toks out))) = Some y"
  show "\<forall>r p' out'. y = Inr (r, p', out') \<longrightarrow>
           history p' \<noteq> [] \<and> parser_idents p' = parser_idents p \<and>
           (last (history p') = [] \<and> \<not> r \<or>
            (\<exists>n toks. tokenize (c_str (last (history p')))
                         (cmd_tokens_t (Some (parser_idents p'))) = Some (Suc n, toks)))"
  proof (intro allI impI)
    fix r p' out'
    assume y: "y = Inr (r, p', out')"
    with step have h: "history p \<noteq> []"
      by (auto simp: last_cmd_def split: if_splits)
    from step h y obtain n toks where
      tk: "tokenize (c_str expr) (cmd_tokens_t (Some (parser_idents p))) = Some (n, toks)"
      by (cases "tokenize (c_str expr) (cmd_tokens_t (Some (parser_idents p)))")
         (auto simp: last_cmd_def)
    show "history p' \<noteq> [] \<and> parser_idents p' = parser_idents p \<and>
           (last (history p') = [] \<and> \<not> r \<or>
            (\<exists>n toks. tokenize (c_str (last (history p')))
                         (cmd_tokens_t (Some (parser_idents p'))) = Some (Suc n, toks)))"
    proof (cases "n = 0")
      case False
      with step h tk y
      have "dispatch (p\<lparr>history := history p @ [expr]\<rparr>) toks out = Inr (r, p', out')"
        by (simp add: last_cmd_def)
      from dispatch_parser [OF this] have "p' = p\<lparr>history := history p @ [expr]\<rparr>" .
      with tk False show ?thesis
        by (cases n) auto
    next
      case True
      show ?thesis
      proof (cases "expr = []")
        case True
        with step h tk y \<open>n = 0\<close> show ?thesis
          by (auto simp: last_cmd_def)
      next
        case False
        with step h tk y True
        have "imp (p\<lparr>history := history p @ [expr]\<rparr>) (last (history p))
                (println [B True, S (c_str (last (history p)))] out) = Some y"
          by (simp add: last_cmd_def)
        from IH [OF this] y show ?thesis
          by auto
      qed
    qed
  qed
qed

lemma execute_imp_success_history:
  assumes "execute_imp p expr out = Some (Inr (True, p', out'))"
  shows "history p' \<noteq> []"
    and "\<exists>n toks. tokenize (c_str (last (history p')))
                     (cmd_tokens_t (Some (parser_idents p'))) = Some (Suc n, toks)"
  using execute_imp_history_aux [OF assms] by blast+

lemma execute_imp_history_ok:
  assumes "execute_imp p expr out = Some (Inr (r, p', out'))"
  shows "history_ok p'"
proof -
  from execute_imp_history_aux [OF assms]
  have "history p' \<noteq> []"
    and "last (history p') = [] \<or>
         (\<exists>n toks. tokenize (c_str (last (history p')))
                      (cmd_tokens_t (Some (parser_idents p'))) = Some (Suc n, toks))"
    by blast+
  then show ?thesis
    by (auto simp: history_ok_def)
qed

text \<open>
  C2, as the code has it: \<open>execute\<close> passes on non-empty statements only. Immediately
  after a statement that \<open>execute_imp\<close> executed with success, the last statement of the
  history has a positional token (it is that statement itself when that one has a
  positional token). A non-empty statement with no positional token submitted then is
  appended to the history, the last statement of the history before it is echoed and
  executed again, and the call returns what resolving and calling its node gives. The
  empty statement is skipped by \<open>execute\<close>.
\<close>

theorem execute_imp_blank_statement:
  assumes "execute_imp p0 stmt out0 = Some (Inr (True, p, out))"
    and "expr \<noteq> []"
    and "tokenize (c_str expr) (cmd_tokens_t (Some (parser_idents p))) = Some (0, toks)"
  shows "history p \<noteq> [] \<and>
     (tokenize (c_str stmt) (cmd_tokens_t (Some (parser_idents p0))) = Some (Suc m, t) \<longrightarrow>
      last (history p) = stmt) \<and>
     (\<exists>n toks2.
        tokenize (c_str (last (history p))) (cmd_tokens_t (Some (parser_idents p))) =
          Some (Suc n, toks2) \<and>
        execute_imp p expr out =
          Some (dispatch (p\<lparr>history := history p @ [expr, last (history p)]\<rparr>) toks2
                  (println [B True, S (c_str (last (history p)))] out))) \<and>
     execute p [] out = Some (Inr (True, p, out))"
proof -
  from execute_imp_success_history [OF assms(1)]
  have h: "history p \<noteq> []"
    and "\<exists>n toks2. tokenize (c_str (last (history p)))
           (cmd_tokens_t (Some (parser_idents p))) = Some (Suc n, toks2)"
    by blast+
  then obtain n toks2 where
    t2: "tokenize (c_str (last (history p))) (cmd_tokens_t (Some (parser_idents p))) =
           Some (Suc n, toks2)"
    by blast
  have rep: "execute_imp p expr out =
      Some (dispatch (p\<lparr>history := history p @ [expr, last (history p)]\<rparr>) toks2
              (println [B True, S (c_str (last (history p)))] out))"
    using h assms(2,3) t2 by (simp add: execute_imp_step)
  have same: "last (history p) = stmt"
    if tk: "tokenize (c_str stmt) (cmd_tokens_t (Some (parser_idents p0))) = Some (Suc m, t)"
  proof -
    have h0: "history p0 \<noteq> []"
      using assms(1) execute_imp_empty_history [of p0 stmt out0] by auto
    from assms(1) tk have "dispatch (p0\<lparr>history := history p0 @ [stmt]\<rparr>) t out0 =
        Inr (True, p, out)"
      by (simp add: execute_imp_step [OF h0])
    from dispatch_parser [OF this] show ?thesis
      by simp
  qed
  from h same t2 rep show ?thesis
    by (auto simp: execute_empty)
qed

text \<open>
  Left out of C2: a statement with no positional token submitted when the last statement
  of the history is itself a non-empty statement with no positional token. Each call
  then calls the other statement again, and \<open>execute_imp\<close> never returns.
\<close>

lemma execute_imp_blank_after_blank_aux:
  assumes "execute_imp p expr out = Some y"
  shows "\<not> (history p \<noteq> [] \<and> expr \<noteq> [] \<and> last (history p) \<noteq> [] \<and>
            map_option fst (tokenize (c_str expr) (cmd_tokens_t (Some (parser_idents p)))) = Some 0 \<and>
            map_option fst (tokenize (c_str (last (history p)))
                              (cmd_tokens_t (Some (parser_idents p)))) = Some 0)"
proof (rule execute_imp.raw_induct
    [where P = "\<lambda>p expr out y.
       \<not> (history p \<noteq> [] \<and> expr \<noteq> [] \<and> last (history p) \<noteq> [] \<and>
            map_option fst (tokenize (c_str expr) (cmd_tokens_t (Some (parser_idents p)))) = Some 0 \<and>
            map_option fst (tokenize (c_str (last (history p)))
                              (cmd_tokens_t (Some (parser_idents p)))) = Some 0)",
     OF _ assms])
  fix imp :: "cmd_parser \<Rightarrow> string \<Rightarrow> cmd_output \<Rightarrow>
      (fault + (bool \<times> cmd_parser \<times> cmd_output)) option"
    and p :: cmd_parser and expr :: string and out :: cmd_output
    and y :: "fault + (bool \<times> cmd_parser \<times> cmd_output)"
  assume IH: "\<And>p expr out y. imp p expr out = Some y \<Longrightarrow>
       \<not> (history p \<noteq> [] \<and> expr \<noteq> [] \<and> last (history p) \<noteq> [] \<and>
            map_option fst (tokenize (c_str expr) (cmd_tokens_t (Some (parser_idents p)))) = Some 0 \<and>
            map_option fst (tokenize (c_str (last (history p)))
                              (cmd_tokens_t (Some (parser_idents p)))) = Some 0)"
    and step: "(case last_cmd p of
        Inl e \<Rightarrow> Some (Inl e)
      | Inr prev_cmd \<Rightarrow>
          (let p1 = p\<lparr>history := history p @ [expr]\<rparr> in
           case tokenize (c_str expr) (cmd_tokens_t (Some (parser_idents p1))) of
             None \<Rightarrow> None
           | Some (n, toks) \<Rightarrow>
               if n = 0 then
                 (case last_cmd p1 of
                    Inl e \<Rightarrow> Some (Inl e)
                  | Inr l \<Rightarrow>
                      if l \<noteq> [] then
                        imp p1 prev_cmd
                          (println [B True, S (c_str prev_cmd)] out)
                      else Some (Inr (False, p1, out)))
               else Some (dispatch p1 toks out))) = Some y"
  show "\<not> (history p \<noteq> [] \<and> expr \<noteq> [] \<and> last (history p) \<noteq> [] \<and>
            map_option fst (tokenize (c_str expr) (cmd_tokens_t (Some (parser_idents p)))) = Some 0 \<and>
            map_option fst (tokenize (c_str (last (history p)))
                              (cmd_tokens_t (Some (parser_idents p)))) = Some 0)"
  proof
    assume a: "history p \<noteq> [] \<and> expr \<noteq> [] \<and> last (history p) \<noteq> [] \<and>
            map_option fst (tokenize (c_str expr) (cmd_tokens_t (Some (parser_idents p)))) = Some 0 \<and>
            map_option fst (tokenize (c_str (last (history p)))
                              (cmd_tokens_t (Some (parser_idents p)))) = Some 0"
    then obtain toks where
      "tokenize (c_str expr) (cmd_tokens_t (Some (parser_idents p))) = Some (0, toks)"
      by (cases "tokenize (c_str expr) (cmd_tokens_t (Some (parser_idents p)))") auto
    with step a
    have "imp (p\<lparr>history := history p @ [expr]\<rparr>) (last (history p))
            (println [B True, S (c_str (last (history p)))] out) = Some y"
      by (simp add: last_cmd_def)
    from IH [OF this] a show False
      by simp
  qed
qed

lemma execute_imp_blank_after_blank:
  assumes "history p \<noteq> []" and "expr \<noteq> []" and "last (history p) \<noteq> []"
    and "tokenize (c_str expr) (cmd_tokens_t (Some (parser_idents p))) = Some (0, toks)"
    and "tokenize (c_str (last (history p))) (cmd_tokens_t (Some (parser_idents p))) =
           Some (0, toks2)"
  shows "execute_imp p expr out = None"
proof (cases "execute_imp p expr out")
  case None
  then show ?thesis .
next
  case (Some y)
  from execute_imp_blank_after_blank_aux [OF Some] assms show ?thesis
    by simp
qed

text \<open>
  In such a state \<open>execute_imp\<close> returns on every statement without a tab, and leaves
  the history in such a state.
\<close>

lemma execute_imp_returns:
  assumes "history_ok p" and "CHR 0x09 \<notin> set expr"
  shows "\<exists>r. execute_imp p expr out = Some r"
proof -
  from assms(1) have h: "history p \<noteq> []"
    by (simp add: history_ok_def)
  from tokenize_returns [OF c_str_no_tab [OF assms(2)]]
  obtain n toks where t: "tokenize (c_str expr) (cmd_tokens_t (Some (parser_idents p))) = Some (n, toks)"
    by blast
  show ?thesis
  proof (cases "n = 0 \<and> expr \<noteq> []")
    case False
    with h t show ?thesis
      by (auto simp: execute_imp_step)
  next
    case True
    let ?p1 = "p\<lparr>history := history p @ [expr]\<rparr>"
    let ?prev = "last (history p)"
    have h1: "history ?p1 \<noteq> []"
      by simp
    have "\<exists>r. execute_imp ?p1 ?prev out1 = Some r" for out1
    proof (cases "?prev = []")
      case True
      then show ?thesis
        by (simp add: execute_imp_step [OF h1] c_str_def tokenize_empty)
    next
      case False
      with assms(1) obtain m toks2 where
        "tokenize (c_str ?prev) (cmd_tokens_t (Some (parser_idents p))) = Some (m, toks2)" "0 < m"
        by (auto simp: history_ok_def split: option.splits)
      then show ?thesis
        by (simp add: execute_imp_step [OF h1])
    qed
    with True h t show ?thesis
      by (simp add: execute_imp_step)
  qed
qed


text \<open>
  C3, as the code has it: when a node \<open>c\<close> is resolved, \<open>execute_imp\<close> looks at the
  positional tokens that remain (\<open>tokens()\<close>), not at the raw ones: if there is one and
  the last one is \<open>?\<close> it calls \<open>on_usage\<close>, otherwise \<open>on_execute\<close> with the remaining
  tokens.
\<close>

theorem execute_imp_resolved:
  assumes "history p \<noteq> []"
    and "tokenize (c_str expr) (cmd_tokens_t (Some (parser_idents p))) = Some (Suc n, toks)"
    and "resolve (p\<lparr>history := history p @ [expr]\<rparr>) toks out = Inr (Some c, toks', out')"
  shows "execute_imp p expr out =
     Some (case (if tokens toks' \<noteq> [] \<and> last (tokens toks') = ''?'' then on_usage c out'
                 else on_execute c toks' out') of
             Inl e \<Rightarrow> Inl e
           | Inr (r, out'') \<Rightarrow> Inr (r, p\<lparr>history := history p @ [expr]\<rparr>, out''))"
  using assms by (simp add: execute_imp_step dispatch_def invoke_def)


lemmas eval_tokenize = tokenize_def tokenize_loop_Nil tokenize_loop_Cons push_record
  cmd_tokens_t_def substitute_no_dollar Let_def c_str_def

lemmas eval_dispatch = dispatch_def resolve_def alias_find_def walk.simps find_matches_def
  str_match_def token_pop_def invoke_def on_execute_def on_usage_def INT_MAX_def
  Let_def c_str_def

lemma ex_tokenize_start:
  "tokenize (c_str ''start'') (cmd_tokens_t (Some (parser_idents ex_parser))) =
     Some (Suc 0, \<lparr>idents = Some Map.empty, raw = [''start''], stage_pair = ([], []),
                   tokens = [''start''], pairs = Map.empty, flags = {}\<rparr>)"
  by (simp add: eval_tokenize ex_parser_def)

lemma ex_tokenize_space:
  "tokenize (c_str '' '') (cmd_tokens_t (Some (parser_idents ex_parser))) =
     Some (0, \<lparr>idents = Some Map.empty, raw = [], stage_pair = ([], []),
               tokens = [], pairs = Map.empty, flags = {}\<rparr>)"
  by (simp add: eval_tokenize ex_parser_def)

lemma ex_tokenize_empty:
  "tokenize (c_str []) (cmd_tokens_t (Some (parser_idents ex_parser))) =
     Some (0, \<lparr>idents = Some Map.empty, raw = [], stage_pair = ([], []),
               tokens = [], pairs = Map.empty, flags = {}\<rparr>)"
  by (simp add: eval_tokenize ex_parser_def)

lemma ex_dispatch_start:
  "dispatch (ex_parser\<lparr>history := h\<rparr>)
     \<lparr>idents = Some Map.empty, raw = [''start''], stage_pair = ([], []),
      tokens = [''start''], pairs = Map.empty, flags = {}\<rparr> out =
   Inr (True, ex_parser\<lparr>history := h\<rparr>, println [B True, S ''started''] out)"
  by (simp add: eval_dispatch ex_parser_def ex_start_def)

lemma ex_execute_imp_start:
  "h \<noteq> [] \<Longrightarrow>
   execute_imp (ex_parser\<lparr>history := h\<rparr>) ''start'' out =
     Some (Inr (True, ex_parser\<lparr>history := h @ [''start'']\<rparr>,
                println [B True, S ''started''] out))"
  using ex_tokenize_start ex_dispatch_start [of "h @ [''start'']" out]
  by (simp add: execute_imp_step ex_parser_def)


theorem execute_imp_blank_statement_witness:
  "execute_imp ex_parser ''start'' cmd_output_t =
     Some (Inr (True, ex_parser\<lparr>history := [''start'', ''start'']\<rparr>,
                println [B True, S ''started''] cmd_output_t)) \<and>
   execute_imp (ex_parser\<lparr>history := [''start'', ''start'']\<rparr>) '' ''
       (println [B True, S ''started''] cmd_output_t) =
     Some (Inr (True, ex_parser\<lparr>history := [''start'', ''start'', '' '', ''start'']\<rparr>,
                println [B True, S ''started'']
                  (println [B True, S ''start''] (println [B True, S ''started''] cmd_output_t))))"
proof -
  let ?p = "ex_parser\<lparr>history := [''start'', ''start'']\<rparr>"
  let ?out = "println [B True, S ''started''] cmd_output_t"
  have s: "execute_imp ex_parser ''start'' cmd_output_t = Some (Inr (True, ?p, ?out))"
    using ex_execute_imp_start [of "[''start'']" cmd_output_t] by (simp add: ex_parser_def)
  have b: "tokenize (c_str '' '') (cmd_tokens_t (Some (parser_idents ?p))) =
     Some (0, \<lparr>idents = Some Map.empty, raw = [], stage_pair = ([], []),
               tokens = [], pairs = Map.empty, flags = {}\<rparr>)"
    using ex_tokenize_space by simp
  have t: "tokenize (c_str ''start'') (cmd_tokens_t (Some (parser_idents ?p))) =
     Some (Suc 0, \<lparr>idents = Some Map.empty, raw = [''start''], stage_pair = ([], []),
                   tokens = [''start''], pairs = Map.empty, flags = {}\<rparr>)"
    using ex_tokenize_start by simp
  have d: "dispatch (ex_parser\<lparr>history := [''start'', ''start'', '' '', ''start'']\<rparr>)
             \<lparr>idents = Some Map.empty, raw = [''start''], stage_pair = ([], []),
              tokens = [''start''], pairs = Map.empty, flags = {}\<rparr>
             (println [B True, S ''start''] ?out) =
           Inr (True, ex_parser\<lparr>history := [''start'', ''start'', '' '', ''start'']\<rparr>,
                println [B True, S ''started''] (println [B True, S ''start''] ?out))"
    by (rule ex_dispatch_start)
  have l: "last (history ?p) = ''start''"
    by simp
  have hs: "?p\<lparr>history := history ?p @ ['' '', ''start'']\<rparr> =
            ex_parser\<lparr>history := [''start'', ''start'', '' '', ''start'']\<rparr>"
    by simp
  have cs: "c_str ''start'' = ''start''"
    by (simp add: c_str_def)
  from execute_imp_blank_statement [OF s _ b]
  obtain n toks2 where
    "tokenize (c_str (last (history ?p))) (cmd_tokens_t (Some (parser_idents ?p))) =
       Some (Suc n, toks2)"
    and r: "execute_imp ?p '' '' ?out =
       Some (dispatch (?p\<lparr>history := history ?p @ ['' '', last (history ?p)]\<rparr>) toks2
               (println [B True, S (c_str (last (history ?p)))] ?out))"
    by blast
  with t have "toks2 = \<lparr>idents = Some Map.empty, raw = [''start''], stage_pair = ([], []),
                   tokens = [''start''], pairs = Map.empty, flags = {}\<rparr>"
    by (simp only: l) simp
  with r d have "execute_imp ?p '' '' ?out =
      Some (Inr (True, ex_parser\<lparr>history := [''start'', ''start'', '' '', ''start'']\<rparr>,
                println [B True, S ''started''] (println [B True, S ''start''] ?out)))"
    by (simp only: l hs cs)
  with s show ?thesis
    by simp
qed

text \<open>
  C2 as stated fails for the empty statement: after \<open>start\<close> has been executed with
  success, \<open>execute_imp\<close> on the empty string returns \<open>false\<close> and writes nothing, and
  \<open>execute\<close> skips it; neither executes \<open>start\<close> again.
\<close>

theorem execute_imp_empty_statement_counterexample:
  "execute_imp ex_parser ''start'' cmd_output_t =
     Some (Inr (True, ex_parser\<lparr>history := [''start'', ''start'']\<rparr>,
                println [B True, S ''started''] cmd_output_t)) \<and>
   execute_imp (ex_parser\<lparr>history := [''start'', ''start'']\<rparr>) []
       (println [B True, S ''started''] cmd_output_t) =
     Some (Inr (False, ex_parser\<lparr>history := [''start'', ''start'', []]\<rparr>,
                println [B True, S ''started''] cmd_output_t)) \<and>
   execute (ex_parser\<lparr>history := [''start'', ''start'']\<rparr>) []
       (println [B True, S ''started''] cmd_output_t) =
     Some (Inr (True, ex_parser\<lparr>history := [''start'', ''start'']\<rparr>,
                println [B True, S ''started''] cmd_output_t))"
proof -
  have 1: "execute_imp ex_parser ''start'' cmd_output_t =
     Some (Inr (True, ex_parser\<lparr>history := [''start'', ''start'']\<rparr>,
                println [B True, S ''started''] cmd_output_t))"
    using ex_execute_imp_start [of "[''start'']" cmd_output_t] by (simp add: ex_parser_def)
  have 2: "execute_imp (ex_parser\<lparr>history := [''start'', ''start'']\<rparr>) [] out =
     Some (Inr (False, ex_parser\<lparr>history := [''start'', ''start'', []]\<rparr>, out))" for out
    using ex_tokenize_empty by (simp add: execute_imp_step ex_parser_def)
  from 1 2 show ?thesis
    by (simp add: execute_empty)
qed

text \<open>
  C3 as stated fails: in \<open>start -v ?\<close> the word \<open>?\<close> is the value of the pair \<open>-v\<close>.
  After \<open>start\<close> is resolved the last raw token is \<open>?\<close>, no positional token is left,
  and the node's \<open>on_execute\<close> runs (it prints \<open>started\<close>), not its \<open>on_usage\<close>.
\<close>

theorem usage_query_raw_counterexample:
  "tokenize (c_str ''start -v ?'') (cmd_tokens_t (Some (parser_idents ex_parser))) =
     Some (1, \<lparr>idents = Some Map.empty, raw = [''start'', ''-v'', ''?''], stage_pair = ([], []),
               tokens = [''start''], pairs = [''-v'' \<mapsto> ''?''], flags = {}\<rparr>) \<and>
   resolve (ex_parser\<lparr>history := [''start'', ''start -v ?'']\<rparr>)
       \<lparr>idents = Some Map.empty, raw = [''start'', ''-v'', ''?''], stage_pair = ([], []),
        tokens = [''start''], pairs = [''-v'' \<mapsto> ''?''], flags = {}\<rparr> cmd_output_t =
     Inr (Some ex_start,
          \<lparr>idents = Some Map.empty, raw = [''-v'', ''?''], stage_pair = ([], []),
           tokens = [], pairs = [''-v'' \<mapsto> ''?''], flags = {}\<rparr>, cmd_output_t) \<and>
   last [''-v'', ''?''] = ''?'' \<and>
   execute_imp ex_parser ''start -v ?'' cmd_output_t =
     Some (Inr (True, ex_parser\<lparr>history := [''start'', ''start -v ?'']\<rparr>,
                println [B True, S ''started''] cmd_output_t)) \<and>
   on_usage ex_start cmd_output_t =
     Inr (True, \<lparr>indent = 2,
                 written = [Println 4 [B True, S ''usage: %s %s'', S ''start'', S []]]\<rparr>) \<and>
   println [B True, S ''started''] cmd_output_t =
     \<lparr>indent = 2, written = [Println 2 [B True, S ''started'']]\<rparr>"
proof -
  have t: "tokenize (c_str ''start -v ?'') (cmd_tokens_t (Some (parser_idents ex_parser))) =
     Some (1, \<lparr>idents = Some Map.empty, raw = [''start'', ''-v'', ''?''], stage_pair = ([], []),
               tokens = [''start''], pairs = [''-v'' \<mapsto> ''?''], flags = {}\<rparr>)"
    by (simp add: eval_tokenize ex_parser_def)
  have r: "resolve (ex_parser\<lparr>history := [''start'', ''start -v ?'']\<rparr>)
       \<lparr>idents = Some Map.empty, raw = [''start'', ''-v'', ''?''], stage_pair = ([], []),
        tokens = [''start''], pairs = [''-v'' \<mapsto> ''?''], flags = {}\<rparr> cmd_output_t =
     Inr (Some ex_start,
          \<lparr>idents = Some Map.empty, raw = [''-v'', ''?''], stage_pair = ([], []),
           tokens = [], pairs = [''-v'' \<mapsto> ''?''], flags = {}\<rparr>, cmd_output_t)"
    by (simp add: eval_dispatch ex_parser_def ex_start_def)
  have e: "execute_imp ex_parser ''start -v ?'' cmd_output_t =
     Some (Inr (True, ex_parser\<lparr>history := [''start'', ''start -v ?'']\<rparr>,
                println [B True, S ''started''] cmd_output_t))"
    using t r
    by (simp add: execute_imp_step ex_parser_def dispatch_def invoke_def on_execute_def
        ex_start_def)
  have u: "on_usage ex_start cmd_output_t =
     Inr (True, \<lparr>indent = 2,
                 written = [Println 4 [B True, S ''usage: %s %s'', S ''start'', S []]]\<rparr>)"
    by (simp add: on_usage_def cmd_t_on_usage_def ex_start_def cmd_output_t_def usage_def
        println_def Let_def)
  have p: "println [B True, S ''started''] cmd_output_t =
     \<lparr>indent = 2, written = [Println 2 [B True, S ''started'']]\<rparr>"
    by (simp add: println_def cmd_output_t_def)
  from t r e u p show ?thesis
    by simp
qed

theorem execute_imp_resolved_witness:
  "execute_imp ex_parser ''start ?'' cmd_output_t =
     Some (Inr (True, ex_parser\<lparr>history := [''start'', ''start ?'']\<rparr>,
                \<lparr>indent = 2,
                 written = [Println 4 [B True, S ''usage: %s %s'', S ''start'', S []]]\<rparr>))"
proof -
  have h: "history ex_parser \<noteq> []"
    by (simp add: ex_parser_def)
  have t: "tokenize (c_str ''start ?'') (cmd_tokens_t (Some (parser_idents ex_parser))) =
     Some (Suc 1, \<lparr>idents = Some Map.empty, raw = [''start'', ''?''], stage_pair = ([], []),
               tokens = [''start'', ''?''], pairs = Map.empty, flags = {}\<rparr>)"
    by (simp add: eval_tokenize ex_parser_def)
  have r: "resolve (ex_parser\<lparr>history := history ex_parser @ [''start ?'']\<rparr>)
       \<lparr>idents = Some Map.empty, raw = [''start'', ''?''], stage_pair = ([], []),
        tokens = [''start'', ''?''], pairs = Map.empty, flags = {}\<rparr> cmd_output_t =
     Inr (Some ex_start,
          \<lparr>idents = Some Map.empty, raw = [''?''], stage_pair = ([], []),
           tokens = [''?''], pairs = Map.empty, flags = {}\<rparr>, cmd_output_t)"
    by (simp add: eval_dispatch ex_parser_def ex_start_def)
  have u: "on_usage ex_start cmd_output_t =
     Inr (True, \<lparr>indent = 2,
                 written = [Println 4 [B True, S ''usage: %s %s'', S ''start'', S []]]\<rparr>)"
    by (simp add: on_usage_def cmd_t_on_usage_def ex_start_def cmd_output_t_def usage_def
        println_def Let_def)
  show ?thesis
    using execute_imp_resolved [OF h t r] u by (simp add: ex_parser_def)
qed

text \<open>
  The second example of the amended C3: in \<open>start ? -v\<close> the word \<open>?\<close> is the last
  positional token, and \<open>on_usage\<close> runs although the last raw token is \<open>-v\<close>.
\<close>

lemma ex_usage_before_flag:
  "execute_imp ex_parser ''start ? -v'' cmd_output_t =
     Some (Inr (True, ex_parser\<lparr>history := [''start'', ''start ? -v'']\<rparr>,
                \<lparr>indent = 2,
                 written = [Println 4 [B True, S ''usage: %s %s'', S ''start'', S []]]\<rparr>))"
proof -
  have t: "tokenize (c_str ''start ? -v'') (cmd_tokens_t (Some (parser_idents ex_parser))) =
     Some (Suc 1, \<lparr>idents = Some Map.empty, raw = [''start'', ''?'', ''-v''],
                   stage_pair = ([], []), tokens = [''start'', ''?''], pairs = Map.empty,
                   flags = {''-v''}\<rparr>)"
    by (simp add: eval_tokenize ex_parser_def)
  have r: "resolve (ex_parser\<lparr>history := [''start'', ''start ? -v'']\<rparr>)
       \<lparr>idents = Some Map.empty, raw = [''start'', ''?'', ''-v''], stage_pair = ([], []),
        tokens = [''start'', ''?''], pairs = Map.empty, flags = {''-v''}\<rparr> cmd_output_t =
     Inr (Some ex_start,
          \<lparr>idents = Some Map.empty, raw = [''?'', ''-v''], stage_pair = ([], []),
           tokens = [''?''], pairs = Map.empty, flags = {''-v''}\<rparr>, cmd_output_t)"
    by (simp add: eval_dispatch ex_parser_def ex_start_def)
  have u: "on_usage ex_start cmd_output_t =
     Inr (True, \<lparr>indent = 2,
                 written = [Println 4 [B True, S ''usage: %s %s'', S ''start'', S []]]\<rparr>)"
    by (simp add: on_usage_def cmd_t_on_usage_def ex_start_def cmd_output_t_def usage_def
        println_def Let_def)
  show ?thesis
    using t r u by (simp add: execute_imp_step ex_parser_def dispatch_def invoke_def)
qed

text \<open>
  An instance of the case left out of C2: a blank statement after a blank statement.
\<close>

lemma ex_blank_after_blank:
  "execute_imp (ex_parser\<lparr>history := ['' '']\<rparr>) '' '' out = None"
  using ex_tokenize_space
  by (intro execute_imp_blank_after_blank
      [where toks = "\<lparr>idents = Some Map.empty, raw = [], stage_pair = ([], []),
                      tokens = [], pairs = Map.empty, flags = {}\<rparr>"
         and ?toks2.0 = "\<lparr>idents = Some Map.empty, raw = [], stage_pair = ([], []),
                      tokens = [], pairs = Map.empty, flags = {}\<rparr>"])
     simp_all

theorem execute_imp_reads_back_of_history_witness:
  "execute_imp (ex_parser\<lparr>history := []\<rparr>) ''start'' cmd_output_t = Some (Inl BackOfEmpty) \<and>
   execute_imp ex_parser ''start'' cmd_output_t \<noteq> Some (Inl BackOfEmpty)"
  using execute_imp_reads_back_of_history [of "ex_parser\<lparr>history := []\<rparr>" "''start''" cmd_output_t]
    execute_imp_reads_back_of_history [of ex_parser "''start''" cmd_output_t]
  by (simp add: ex_parser_def)


section \<open>Properties of execute\<close>

lemma split_on_no_delim: "d \<notin> set s \<Longrightarrow> split_on d s = [s]"
  by (induction s) auto

lemma split_on_delim:
  "d \<in> set s \<Longrightarrow>
   split_on d s = takeWhile (\<lambda>c. c \<noteq> d) s # split_on d (tl (dropWhile (\<lambda>c. c \<noteq> d) s))"
  by (induction s) auto

lemma execute_loop_segments:
  "execute_loop p rest out = execute_segments p (split_on (CHR '';'') rest) out"
proof (induction "length rest" arbitrary: p rest out rule: less_induct)
  case less
  show ?case
  proof (cases "CHR '';'' \<in> set rest")
    case False
    then show ?thesis
      by (subst execute_loop.simps)
         (simp add: split_on_no_delim execute_single_def split: option.splits sum.splits)
  next
    case True
    let ?seg = "takeWhile (\<lambda>c. c \<noteq> CHR '';'') rest"
    let ?rest = "tl (dropWhile (\<lambda>c. c \<noteq> CHR '';'') rest)"
    from True have "dropWhile (\<lambda>c. c \<noteq> CHR '';'') rest \<noteq> []"
      by simp
    then have "length ?rest < length (dropWhile (\<lambda>c. c \<noteq> CHR '';'') rest)"
      by (cases "dropWhile (\<lambda>c. c \<noteq> CHR '';'') rest") simp_all
    also have "\<dots> \<le> length rest"
      by (rule length_dropWhile_le)
    finally have IH: "execute_loop p' ?rest out' =
        execute_segments p' (split_on (CHR '';'') ?rest) out'" for p' out'
      by (rule less.hyps)
    have loop: "execute_loop p rest out =
        (case execute_single p ?seg out of
           None \<Rightarrow> None
         | Some (Inl e) \<Rightarrow> Some (Inl e)
         | Some (Inr (ok, p', out')) \<Rightarrow>
             if ok then execute_loop p' ?rest out'
             else Some (Inr (False, p', out')))"
      using True by (subst execute_loop.simps) simp
    show ?thesis
      unfolding loop split_on_delim [OF True]
      by (simp add: execute_single_def IH split: option.splits sum.splits)
  qed
qed

text \<open>
  C7: \<open>execute\<close> does what the specification says of the segments between the
  delimiters: \<open>execute_imp\<close> on each non-empty one in turn; at the first that returns
  \<open>false\<close>, \<open>command_failed\<close> and \<open>false\<close>, with no later segment executed; \<open>true\<close>
  when none fails.
\<close>

theorem execute_statement_sequence:
  "execute p expr out = execute_segments p (split_on (CHR '';'') expr) out"
  by (simp add: execute_def execute_loop_segments)

text \<open>An expression made of delimiters only has only empty segments, and succeeds.\<close>

lemma execute_segments_empty:
  "list_all (\<lambda>seg. seg = []) segs \<Longrightarrow> execute_segments p segs out = Some (Inr (True, p, out))"
  by (induction segs) simp_all

lemma split_on_only_delimiters:
  "list_all (\<lambda>c. c = d) s \<Longrightarrow> list_all (\<lambda>seg. seg = []) (split_on d s)"
  by (induction s) simp_all

lemma execute_only_delimiters:
  "list_all (\<lambda>c. c = CHR '';'') expr \<Longrightarrow> execute p expr out = Some (Inr (True, p, out))"
  by (simp add: execute_def execute_loop_segments execute_segments_empty split_on_only_delimiters)

text \<open>
  \<open>execute\<close> returns on every expression without a tab, when the history is in a state
  in which a blank statement can be answered.
\<close>

lemma execute_single_returns:
  assumes "history_ok p" and "CHR 0x09 \<notin> set cmd"
  shows "\<exists>s. execute_single p cmd out = Some s \<and>
             (\<forall>ok p' out'. s = Inr (ok, p', out') \<longrightarrow> history_ok p')"
proof (cases "cmd = []")
  case True
  with assms(1) show ?thesis
    by (simp add: execute_single_def)
next
  case False
  from execute_imp_returns [OF assms] obtain r where r: "execute_imp p cmd out = Some r"
    by blast
  show ?thesis
  proof (cases r)
    case (Inl e)
    with r False show ?thesis
      by (simp add: execute_single_def)
  next
    case (Inr v)
    obtain ok p' out' where v: "v = (ok, p', out')"
      by (cases v)
    from r Inr v have "history_ok p'"
      using execute_imp_history_ok by blast
    with r Inr v False show ?thesis
      by (simp add: execute_single_def)
  qed
qed

lemma execute_loop_returns:
  "history_ok p \<Longrightarrow> CHR 0x09 \<notin> set rest \<Longrightarrow> \<exists>r. execute_loop p rest out = Some r"
proof (induction "length rest" arbitrary: p rest out rule: less_induct)
  case less
  show ?case
  proof (cases "CHR '';'' \<in> set rest")
    case False
    with execute_single_returns [OF less.prems, of out] show ?thesis
      by (subst execute_loop.simps) auto
  next
    case True
    let ?seg = "takeWhile (\<lambda>c. c \<noteq> CHR '';'') rest"
    let ?rest = "tl (dropWhile (\<lambda>c. c \<noteq> CHR '';'') rest)"
    from True have ne: "dropWhile (\<lambda>c. c \<noteq> CHR '';'') rest \<noteq> []"
      by simp
    then have "length ?rest < length (dropWhile (\<lambda>c. c \<noteq> CHR '';'') rest)"
      by (cases "dropWhile (\<lambda>c. c \<noteq> CHR '';'') rest") simp_all
    also have "\<dots> \<le> length rest"
      by (rule length_dropWhile_le)
    finally have len: "length ?rest < length rest" .
    have "set ?rest \<subseteq> set rest"
      using ne by (meson list.set_sel(2) set_dropWhileD subsetI)
    with less.prems(2) have tab: "CHR 0x09 \<notin> set ?rest"
      by blast
    have "CHR 0x09 \<notin> set ?seg"
      using less.prems(2) by (auto dest: set_takeWhileD)
    from execute_single_returns [OF less.prems(1) this, of out]
    obtain s where s: "execute_single p ?seg out = Some s"
      and ok: "\<And>ok p' out'. s = Inr (ok, p', out') \<Longrightarrow> history_ok p'"
      by blast
    show ?thesis
    proof (cases s)
      case (Inl e)
      with s True show ?thesis
        by (subst execute_loop.simps) simp
    next
      case (Inr v)
      obtain b p' out' where v: "v = (b, p', out')"
        by (cases v)
      from ok Inr v have "history_ok p'"
        by blast
      from less.hyps [OF len this tab, of out']
      obtain r where "execute_loop p' ?rest out' = Some r"
        by blast
      with s Inr v True show ?thesis
        by (subst execute_loop.simps) simp
    qed
  qed
qed

lemma execute_returns:
  "history_ok p \<Longrightarrow> CHR 0x09 \<notin> set expr \<Longrightarrow> \<exists>r. execute p expr out = Some r"
  by (simp add: execute_def execute_loop_returns)

text \<open>
  On a new parser, whose history is empty, the first non-empty statement that \<open>execute\<close>
  passes on ends in the read of the back of the empty history.
\<close>

lemma execute_empty_history:
  assumes "history p = []" and "expr \<noteq> []" and "CHR '';'' \<notin> set expr"
  shows "execute p expr out = Some (Inl BackOfEmpty)"
  using assms
  by (simp add: execute_def execute_loop.simps execute_single_def execute_imp_empty_history)

end
